theory Spec2Isabelle
  imports Main "HOL-Library.Word" "HOL-Library.Monad_Syntax"
begin

unbundle bit_operations_syntax

section \<open>Go values used by the fragmenting writer\<close>

text \<open>
  Bytes are 8-bit words, \<open>int32\<close> values are 32-bit words read with \<open>sint\<close>, so that
  \<open>w.prefixBytes+5\<close> and \<open>int32(len(data))\<close> wrap as they do in Go. Counts of type \<open>int\<close>
  and \<open>int64\<close> are unbounded integers: they count bytes of buffers held in memory.

  A run-time panic (slice bounds out of range, index out of range, negative \<open>make\<close>)
  is the value \<open>None\<close> of the option monad; \<open>Some r\<close> is a call that returned \<open>r\<close>.
\<close>

type_synonym byte = "8 word"
type_synonym int32 = "32 word"
type_synonym uint16 = "16 word"

text \<open>The \<open>error\<close> values that can reach a caller: those of package \<open>io\<close>, and any other.\<close>

datatype error = EOF | ErrUnexpectedEOF | ErrShortWrite | errInvalidWrite | OtherError nat

text \<open>\<open>s[i:]\<close>, \<open>s[:j]\<close>, \<open>s[i:j]\<close> and \<open>s[i]\<close>. Every upper bound the writer uses is at most
  \<open>len(s)\<close>, so the capacity beyond the length plays no part.\<close>

definition slice_from :: "'a list \<Rightarrow> int \<Rightarrow> 'a list option" where
  "slice_from s i = (if 0 \<le> i \<and> i \<le> int (length s) then Some (drop (nat i) s) else None)"

definition slice_to :: "'a list \<Rightarrow> int \<Rightarrow> 'a list option" where
  "slice_to s j = (if 0 \<le> j \<and> j \<le> int (length s) then Some (take (nat j) s) else None)"

definition slice :: "'a list \<Rightarrow> int \<Rightarrow> int \<Rightarrow> 'a list option" where
  "slice s i j =
     (if 0 \<le> i \<and> i \<le> j \<and> j \<le> int (length s)
      then Some (drop (nat i) (take (nat j) s)) else None)"

definition index :: "'a list \<Rightarrow> int \<Rightarrow> 'a option" where
  "index s i = (if 0 \<le> i \<and> i < int (length s) then Some (s ! nat i) else None)"

text \<open>\<open>make([]byte, n)\<close>: a zeroed buffer; a negative length panics.\<close>

definition make_bytes :: "int \<Rightarrow> byte list option" where
  "make_bytes n = (if n < 0 then None else Some (replicate (nat n) 0))"

text \<open>\<open>copy(buf[off:], src)\<close>: the slice expression panics outside \<open>0..len(buf)\<close>; \<open>copy\<close>
  moves \<open>min(len(buf[off:]), len(src))\<close> bytes and leaves the rest of \<open>buf\<close> as it was.\<close>

definition copy_at :: "byte list \<Rightarrow> int \<Rightarrow> byte list \<Rightarrow> byte list option" where
  "copy_at buf off src =
     (if 0 \<le> off \<and> off \<le> int (length buf)
      then let k = min (length buf - nat off) (length src)
           in Some (take (nat off) buf @ take k src @ drop (nat off + k) buf)
      else None)"

text \<open>\<open>binary.BigEndian.Uint16(b)\<close> and \<open>binary.BigEndian.PutUint16(buf[off:], v)\<close>; both
  panic on a slice shorter than two bytes.\<close>

definition Uint16 :: "byte list \<Rightarrow> uint16 option" where
  "Uint16 b =
     (if length b < 2 then None
      else Some ((ucast (b ! 1) :: uint16) OR push_bit 8 (ucast (b ! 0) :: uint16)))"

definition PutUint16_at :: "byte list \<Rightarrow> int \<Rightarrow> uint16 \<Rightarrow> byte list option" where
  "PutUint16_at buf off v =
     (if 0 \<le> off \<and> off + 2 \<le> int (length buf)
      then Some (buf[nat off := ucast (drop_bit 8 v), nat off + 1 := ucast v])
      else None)"

section \<open>The sink: an \<open>io.Writer\<close>\<close>

text \<open>
  The underlying writer is any deterministic \<open>io.Writer\<close>: \<open>received\<close> logs the buffers
  handed to its \<open>Write\<close>, oldest first, and \<open>behaviour\<close> gives the count and error it answers
  with, from the log so far and the buffer of this call.
\<close>

record sink =
  received :: "byte list list"
  behaviour :: "byte list list \<Rightarrow> byte list \<Rightarrow> int \<times> error option"

definition sink_Write :: "sink \<Rightarrow> byte list \<Rightarrow> (int \<times> error option) \<times> sink" where
  "sink_Write s p = (behaviour s (received s) p, s\<lparr>received := received s @ [p]\<rparr>)"

section \<open>The fragmenting writer, push mode\<close>

record tlsRecordFragWriter =
  writer :: sink
  prefixBytes :: int32

definition maxRecordLength :: int32 where
  "maxRecordLength = push_bit 14 1"

definition typeHandshake :: byte where
  "typeHandshake = 22"

definition NewWriter :: "sink \<Rightarrow> int32 \<Rightarrow> tlsRecordFragWriter" where
  "NewWriter s n = \<lparr>writer = s, prefixBytes = n\<rparr>"

text \<open>\<open>return w.writer.Write(data)\<close>.\<close>

definition forward :: "tlsRecordFragWriter \<Rightarrow> byte list \<Rightarrow> (int \<times> error option) \<times> tlsRecordFragWriter" where
  "forward w data = (let (r, s) = sink_Write (writer w) data in (r, w\<lparr>writer := s\<rparr>))"

text \<open>Lines 116 to 131 of \<open>Write\<close>: the buffer that holds both records, built from
  \<open>data\<close> and its tail \<open>remainder = data[5:]\<close>; \<open>len\<close> is \<open>int32(len(data))\<close>.\<close>

definition fragment :: "int32 \<Rightarrow> byte list \<Rightarrow> byte list \<Rightarrow> int32 \<Rightarrow> int32 \<Rightarrow> bool \<Rightarrow> byte list option" where
  "fragment prefix data remainder len recordLength hasMultipleRecords =
     do {
       buf \<leftarrow> make_bytes (sint (len + 5));
       header \<leftarrow> slice_to data 3;
       record1 \<leftarrow> slice_to remainder (sint prefix);
       record2 \<leftarrow> slice remainder (sint prefix) (sint recordLength);
       buf \<leftarrow> copy_at buf 0 header;
       buf \<leftarrow> PutUint16_at buf 3 (ucast prefix);
       buf \<leftarrow> copy_at buf 5 record1;
       buf \<leftarrow> copy_at buf (sint (5 + prefix)) header;
       buf \<leftarrow> PutUint16_at buf (sint (5 + 3 + prefix)) (of_nat (length record2));
       buf \<leftarrow> copy_at buf (sint (5 + 5 + prefix)) record2;
       if hasMultipleRecords
       then do {
         rest \<leftarrow> slice_from remainder (sint recordLength);
         copy_at buf (sint (5 + 5 + recordLength)) rest
       }
       else Some buf
     }"

text \<open>Lines 133 to 138 of \<open>Write\<close>: disarm, hand the buffer to the sink, and take the
  added header off the count when the sink took at least five bytes.\<close>

definition write_fragmented :: "tlsRecordFragWriter \<Rightarrow> byte list \<Rightarrow> (int \<times> error option) \<times> tlsRecordFragWriter" where
  "write_fragmented w buf =
     (let ((written, err), w') = forward (w\<lparr>prefixBytes := 0\<rparr>) buf
      in ((if 5 \<le> written then written - 5 else written, err), w'))"

definition Write :: "tlsRecordFragWriter \<Rightarrow> byte list \<Rightarrow> ((int \<times> error option) \<times> tlsRecordFragWriter) option" where
  "Write w data =
     (if 0 <s prefixBytes w then
        let len = (of_nat (length data) :: int32) in
        if len \<le>s prefixBytes w + 5 then Some (forward (w\<lparr>prefixBytes := 0\<rparr>) data)
        else do {
          lenField \<leftarrow> slice_from data 3;
          u \<leftarrow> Uint16 lenField;
          let recordLength = (ucast u :: int32);
          remainder \<leftarrow> slice_from data 5;
          let remainderLength = len - 5;
          let hasPartialRecord = remainderLength <s recordLength;
          let hasMultipleRecords = recordLength <s remainderLength;
          let isRecordOverflow = maxRecordLength <s recordLength;
          d0 \<leftarrow> index data 0;
          if d0 \<noteq> typeHandshake \<or> hasPartialRecord \<or> prefixBytes w = recordLength \<or> isRecordOverflow
          then Some (forward (w\<lparr>prefixBytes := 0\<rparr>) data)
          else do {
            buf \<leftarrow> fragment (prefixBytes w) data remainder len recordLength hasMultipleRecords;
            Some (write_fragmented w buf)
          }
        }
      else Some (forward w data))"

text \<open>A caller making one \<open>Write\<close> call per buffer of a list, whatever each call
  returns; a panic ends the run.\<close>

fun Writes :: "tlsRecordFragWriter \<Rightarrow> byte list list \<Rightarrow> ((int \<times> error option) list \<times> tlsRecordFragWriter) option" where
  "Writes w [] = Some ([], w)"
| "Writes w (d # ds) =
     do {
       (r, w') \<leftarrow> Write w d;
       (rs, w'') \<leftarrow> Writes w' ds;
       Some (r # rs, w'')
     }"

text \<open>The same buffers written to the sink directly, one call each: what a caller gets
  from a writer that only passes through.\<close>

fun sink_Writes :: "sink \<Rightarrow> byte list list \<Rightarrow> (int \<times> error option) list \<times> sink" where
  "sink_Writes s [] = ([], s)"
| "sink_Writes s (d # ds) =
     (let (r, s') = sink_Write s d;
          (rs, s'') = sink_Writes s' ds
      in (r # rs, s''))"

section \<open>The source: an \<open>io.Reader\<close>, with \<open>io.ReadFull\<close> and \<open>io.Copy\<close>\<close>

text \<open>
  A source holds the chunks its successive \<open>Read\<close> calls will deliver and the error it
  reports once they are used up (\<open>EOF\<close> for a source that simply ends). A \<open>Read\<close> into a
  buffer of \<open>n\<close> bytes delivers the next chunk, or its first \<open>n\<close> bytes when it is longer,
  with a nil error; an empty chunk is a \<open>Read\<close> that delivers nothing.

  \<open>io.ReadFull\<close> and \<open>io.Copy\<close> belong to the Go standard library and are written out here
  as package \<open>io\<close> documents them: \<open>ReadFull\<close> reads until the buffer is full, and turns
  an \<open>EOF\<close> after some but not all bytes into \<open>ErrUnexpectedEOF\<close>; \<open>Copy\<close> reads into a
  buffer of 32 KiB and writes what each \<open>Read\<close> delivered, until the source reports an
  error (\<open>EOF\<close> is not one for the caller) or a write fails or is short.
\<close>

record source =
  chunks :: "byte list list"
  final :: error

fun read_full :: "byte list list \<Rightarrow> nat \<Rightarrow> byte list \<times> byte list list" where
  "read_full cs 0 = ([], cs)"
| "read_full [] n = ([], [])"
| "read_full (c # cs) n =
     (if length c \<le> n
      then let (bs, rest) = read_full cs (n - length c) in (c @ bs, rest)
      else (take n c, drop n c # cs))"

definition io_ReadFull :: "source \<Rightarrow> nat \<Rightarrow> byte list \<times> error option \<times> source" where
  "io_ReadFull src n =
     (let (bs, rest) = read_full (chunks src) n;
          err = (if n \<le> length bs then None
                 else if bs \<noteq> [] \<and> final src = EOF then Some ErrUnexpectedEOF
                 else Some (final src))
      in (bs, err, src\<lparr>chunks := rest\<rparr>))"

definition copy_buffer_size :: nat where
  "copy_buffer_size = 32 * 1024"

function copy_loop :: "sink \<Rightarrow> byte list list \<Rightarrow> error \<Rightarrow> int \<Rightarrow> (int \<times> error option) \<times> sink \<times> byte list list" where
  "copy_loop dst [] fin written = ((written, if fin = EOF then None else Some fin), dst, [])"
| "copy_loop dst (c # cs) fin written =
     (let p = take copy_buffer_size c;
          rest = (if length c \<le> copy_buffer_size then cs else drop copy_buffer_size c # cs)
      in if p = [] then copy_loop dst rest fin written
         else let ((nw0, ew0), dst') = sink_Write dst p;
                  (nw, ew) = (if nw0 < 0 \<or> int (length p) < nw0
                              then (0, if ew0 = None then Some errInvalidWrite else ew0)
                              else (nw0, ew0));
                  written' = written + nw
              in if ew \<noteq> None then ((written', ew), dst', rest)
                 else if int (length p) \<noteq> nw then ((written', Some ErrShortWrite), dst', rest)
                 else copy_loop dst' rest fin written')"
  by pat_completeness auto
termination
  by (relation "measure (\<lambda>(dst, cs, fin, written). sum_list (map (\<lambda>c. Suc (length c)) cs))")
     (auto simp: copy_buffer_size_def)

text \<open>The size of what a source still holds, by which the loop of \<open>io.Copy\<close> ends.\<close>

definition chunk_measure :: "byte list list \<Rightarrow> nat" where
  "chunk_measure cs = sum_list (map (\<lambda>c. Suc (length c)) cs)"

definition io_Copy :: "sink \<Rightarrow> source \<Rightarrow> (int \<times> error option) \<times> sink \<times> source" where
  "io_Copy dst src =
     (let (r, dst', rest) = copy_loop dst (chunks src) (final src) 0
      in (r, dst', src\<lparr>chunks := rest\<rparr>))"

section \<open>The fragmenting writer, pull mode\<close>

type_synonym pull_result = "(int \<times> error option) \<times> tlsRecordFragWriter \<times> source"

text \<open>The last three lines of \<open>dontFrag\<close> and of \<open>ReadFrom\<close>:
  \<open>n, err := io.Copy(w.writer, source); written += n; return written, err\<close>.\<close>

definition copy_rest :: "int \<Rightarrow> tlsRecordFragWriter \<Rightarrow> source \<Rightarrow> pull_result" where
  "copy_rest written w src =
     (let ((n, err), s, src') = io_Copy (writer w) src
      in ((written + n, err), w\<lparr>writer := s\<rparr>, src'))"

definition dontFrag :: "tlsRecordFragWriter \<Rightarrow> byte list \<Rightarrow> source \<Rightarrow> pull_result" where
  "dontFrag w first src =
     (let ((tmp, err), s) = sink_Write (writer w) first;
          written = tmp;
          w' = w\<lparr>writer := s, prefixBytes := 0\<rparr>
      in if err \<noteq> None then ((written, err), w', src)
         else copy_rest written w' src)"

definition ReadFrom :: "tlsRecordFragWriter \<Rightarrow> source \<Rightarrow> pull_result option" where
  "ReadFrom w src =
     (if 0 <s prefixBytes w then
        let (recordHeader, err, src1) = io_ReadFull src 5 in
        if err \<noteq> None then Some ((0, err), w, src1)
        else do {
          lenField \<leftarrow> slice_from recordHeader 3;
          u \<leftarrow> Uint16 lenField;
          let recordLength = (ucast u :: int32);
          h0 \<leftarrow> index recordHeader 0;
          if h0 \<noteq> typeHandshake \<or> recordLength \<le>s prefixBytes w
          then Some (dontFrag w recordHeader src1)
          else if maxRecordLength <s recordLength
          then Some (dontFrag w recordHeader src1)
          else do {
            buf \<leftarrow> make_bytes (sint (recordLength + 10));
            header \<leftarrow> slice_to recordHeader 3;
            buf \<leftarrow> copy_at buf 0 header;
            buf \<leftarrow> PutUint16_at buf 3 (ucast (prefixBytes w));
            slot1 \<leftarrow> slice buf 5 (sint (5 + prefixBytes w));
            let (bytes1, err, src2) = io_ReadFull src1 (length slot1);
            if err \<noteq> None then Some ((0, err), w\<lparr>prefixBytes := 0\<rparr>, src2)
            else do {
              let n2 = int (length bytes1);
              buf \<leftarrow> copy_at buf 5 bytes1;
              buf \<leftarrow> copy_at buf (5 + n2) header;
              buf \<leftarrow> PutUint16_at buf (5 + n2 + 3) (ucast (recordLength - prefixBytes w));
              slot2 \<leftarrow> slice_from buf (sint (10 + prefixBytes w));
              let (bytes2, err, src3) = io_ReadFull src2 (length slot2);
              if err \<noteq> None then Some ((0, err), w\<lparr>prefixBytes := 0\<rparr>, src3)
              else do {
                buf \<leftarrow> copy_at buf (sint (10 + prefixBytes w)) bytes2;
                let ((tmp, err), s) = sink_Write (writer w) buf;
                let w' = w\<lparr>writer := s, prefixBytes := 0\<rparr>;
                let written = (if 5 \<le> tmp then tmp - 5 else tmp);
                if err \<noteq> None then Some ((written, err), w', src3)
                else Some (copy_rest written w' src3)
              }
            }
          }
        }
      else Some (copy_rest 0 w src))"

section \<open>A run of calls on one writer\<close>

text \<open>
  A caller may use the writer in either mode, any number of times: \<open>Push data\<close> is a call
  \<open>w.Write(data)\<close> and \<open>Pull src\<close> a call \<open>w.ReadFrom(src)\<close>, each with a source of its own.
  What a call took from its caller is the buffer, or the bytes \<open>ReadFrom\<close> read from the
  source: those the source held before the call and holds no more after it. A run gives,
  call by call, what the call returned and what it took; a panic ends the run.
\<close>

datatype call = Push "byte list" | Pull source

definition consumed :: "source \<Rightarrow> source \<Rightarrow> byte list" where
  "consumed src src' =
     take (length (concat (chunks src)) - length (concat (chunks src'))) (concat (chunks src))"

fun calls :: "tlsRecordFragWriter \<Rightarrow> call list
    \<Rightarrow> (((int \<times> error option) \<times> byte list) list \<times> tlsRecordFragWriter) option" where
  "calls w [] = Some ([], w)"
| "calls w (Push data # cs) =
     do {
       (r, w') \<leftarrow> Write w data;
       (rs, w'') \<leftarrow> calls w' cs;
       Some ((r, data) # rs, w'')
     }"
| "calls w (Pull src # cs) =
     do {
       (r, w', src') \<leftarrow> ReadFrom w src;
       (rs, w'') \<leftarrow> calls w' cs;
       Some ((r, consumed src src') # rs, w'')
     }"

section \<open>Shadowsocks configuration: the \<open>prefix\<close> parameter\<close>

text \<open>
  A Go string is its bytes. The conversion \<open>[]rune(s)\<close> is the language's UTF-8 decoding,
  written out here as the Go runtime performs it: a byte below \<open>0x80\<close> is its own rune, a
  well-formed sequence of two to four bytes is one rune, and any other byte is the single
  rune \<open>U+FFFD\<close>. \<open>decode_multibyte b0 bs\<close> gives the rune that starts with the non-ASCII
  byte \<open>b0\<close> and the number of bytes of \<open>bs\<close> it takes, or \<open>None\<close> for an ill-formed start.
\<close>

type_synonym rune = int32

definition runeError :: rune where
  "runeError = 0xFFFD"

definition continuation :: "byte \<Rightarrow> bool" where
  "continuation b \<longleftrightarrow> 0x80 \<le> b \<and> b \<le> 0xBF"

definition decode_multibyte :: "byte \<Rightarrow> byte list \<Rightarrow> (rune \<times> nat) option" where
  "decode_multibyte b0 bs =
     (if 0xC0 \<le> b0 \<and> b0 < 0xE0 then
        (case bs of
           b1 # _ \<Rightarrow>
             if continuation b1
             then let r = push_bit 6 (ucast (b0 AND 0x1F)) OR ucast (b1 AND 0x3F) :: rune
                  in if 0x7F < r then Some (r, 1) else None
             else None
         | _ \<Rightarrow> None)
      else if 0xE0 \<le> b0 \<and> b0 < 0xF0 then
        (case bs of
           b1 # b2 # _ \<Rightarrow>
             if continuation b1 \<and> continuation b2
             then let r = push_bit 12 (ucast (b0 AND 0x0F)) OR push_bit 6 (ucast (b1 AND 0x3F))
                          OR ucast (b2 AND 0x3F) :: rune
                  in if 0x7FF < r \<and> \<not> (0xD800 \<le> r \<and> r \<le> 0xDFFF) then Some (r, 2) else None
             else None
         | _ \<Rightarrow> None)
      else if 0xF0 \<le> b0 \<and> b0 < 0xF8 then
        (case bs of
           b1 # b2 # b3 # _ \<Rightarrow>
             if continuation b1 \<and> continuation b2 \<and> continuation b3
             then let r = push_bit 18 (ucast (b0 AND 0x07)) OR push_bit 12 (ucast (b1 AND 0x3F))
                          OR push_bit 6 (ucast (b2 AND 0x3F)) OR ucast (b3 AND 0x3F) :: rune
                  in if 0xFFFF < r \<and> r \<le> 0x10FFFF then Some (r, 3) else None
             else None
         | _ \<Rightarrow> None)
      else None)"

fun runes_of :: "byte list \<Rightarrow> rune list" where
  "runes_of [] = []"
| "runes_of (b0 # bs) =
     (if b0 < 0x80 then ucast b0 # runes_of bs
      else case decode_multibyte b0 bs of
             Some (r, k) \<Rightarrow> r # runes_of (drop k bs)
           | None \<Rightarrow> runeError # runes_of bs)"

text \<open>The errors \<open>parseShadowsocksURL\<close> returns, one per \<open>return nil, ...\<close> of the source;
  the rune of \<open>character out of range: %d\<close> is kept.\<close>

datatype config_error =
    HostNotSpecified
  | DecodeCipherInfoFailed
  | NoSeparator
  | CreateCipherFailed
  | ParsePrefixFailed rune

text \<open>The loop of \<open>parseStringPrefix\<close>: \<open>i\<close> is the index of the rune at the head of the
  list, \<open>rawBytes\<close> the slice being filled (an index beyond it panics).\<close>

fun fill_rawBytes :: "rune list \<Rightarrow> nat \<Rightarrow> byte list \<Rightarrow> (config_error + byte list) option" where
  "fill_rawBytes [] i rawBytes = Some (Inr rawBytes)"
| "fill_rawBytes (r # rs) i rawBytes =
     (if (r AND 0xFF) \<noteq> r then Some (Inl (ParsePrefixFailed r))
      else if i < length rawBytes then fill_rawBytes rs (Suc i) (rawBytes[i := ucast r])
      else None)"

definition parseStringPrefix :: "byte list \<Rightarrow> (config_error + byte list) option" where
  "parseStringPrefix utf8Str =
     (let runes = runes_of utf8Str;
          rawBytes = replicate (length runes) 0
      in fill_rawBytes runes 0 rawBytes)"

text \<open>\<open>strings.Cut(s, ":")\<close>: the text before and after the first colon, and whether there
  is one.\<close>

fun Cut_colon :: "byte list \<Rightarrow> byte list \<times> byte list \<times> bool" where
  "Cut_colon [] = ([], [], False)"
| "Cut_colon (c # cs) =
     (if c = 0x3A then ([], cs, True)
      else let (before, after, found) = Cut_colon cs in (c # before, after, found))"

text \<open>
  Of a \<open>*url.URL\<close> the parser reads \<open>url.Host\<close>, \<open>url.User.String()\<close> and the values of the
  query. The base64 decoder of the standard library and \<open>shadowsocks.NewEncryptionKey\<close>,
  which the sources at hand do not include, are parameters; each gives \<open>None\<close> for an error.
\<close>

record URL =
  Host :: "byte list"
  User :: "byte list"
  Query :: "byte list \<Rightarrow> byte list list"

definition Query_Get :: "URL \<Rightarrow> byte list \<Rightarrow> byte list" where
  "Query_Get url key = (case Query url key of [] \<Rightarrow> [] | v # _ \<Rightarrow> v)"

record 'k shadowsocksConfig =
  serverAddress :: "byte list"
  cryptoKey :: "'k option"
  prefix :: "byte list"

definition prefix_key :: "byte list" where
  "prefix_key = [0x70, 0x72, 0x65, 0x66, 0x69, 0x78]"

definition parseShadowsocksURL ::
  "(byte list \<Rightarrow> byte list option) \<Rightarrow> (byte list \<Rightarrow> byte list \<Rightarrow> 'k option) \<Rightarrow> URL
   \<Rightarrow> (config_error + 'k shadowsocksConfig) option" where
  "parseShadowsocksURL DecodeString NewEncryptionKey url =
     (let config = \<lparr>serverAddress = [], cryptoKey = None, prefix = []\<rparr> in
      if Host url = [] then Some (Inl HostNotSpecified)
      else
        let config = config\<lparr>serverAddress := Host url\<rparr> in
        case DecodeString (User url) of
          None \<Rightarrow> Some (Inl DecodeCipherInfoFailed)
        | Some cipherInfoBytes \<Rightarrow>
            let (cipherName, secret, found) = Cut_colon cipherInfoBytes in
            if \<not> found then Some (Inl NoSeparator)
            else
              case NewEncryptionKey cipherName secret of
                None \<Rightarrow> Some (Inl CreateCipherFailed)
              | Some key \<Rightarrow>
                  let config = config\<lparr>cryptoKey := Some key\<rparr>;
                      prefixStr = Query_Get url prefix_key
                  in if 0 < length prefixStr
                     then (case parseStringPrefix prefixStr of
                             None \<Rightarrow> None
                           | Some (Inl e) \<Rightarrow> Some (Inl e)
                           | Some (Inr p) \<Rightarrow> Some (Inr (config\<lparr>prefix := p\<rparr>)))
                     else Some (Inr config))"

section \<open>What the specification says of a split\<close>

text \<open>
  The record header is \<open>[type:1][version:2][length:2]\<close>, the length unsigned and
  big-endian. For a split at \<open>offset\<close> the specification gives the output
  \<open>headerA ++ payload[0:offset] ++ headerB ++ payload[offset:header.length] ++\<close> the
  trailing bytes, where both headers copy type and version and carry the lengths
  \<open>offset\<close> and \<open>header.length - offset\<close>.
\<close>

definition length_field :: "byte list \<Rightarrow> nat" where
  "length_field input = unat (input ! 3) * 256 + unat (input ! 4)"

definition be16 :: "nat \<Rightarrow> byte list" where
  "be16 n = [of_nat (n div 256), of_nat (n mod 256)]"

definition spec_split :: "nat \<Rightarrow> byte list \<Rightarrow> byte list" where
  "spec_split offset input =
     (let hdr = take 3 input; n = length_field input; payload = drop 5 input
      in hdr @ be16 offset @ take offset payload
         @ hdr @ be16 (n - offset) @ drop offset (take n payload)
         @ drop n payload)"

text \<open>
  Content preservation, as the specification words it: what reaches the sink is the input,
  or it is the split of the input, which is five bytes longer; the five bytes are a second
  header with the type and version of the first, the two length fields add up to the
  length field of the input, and what follows the record in the input follows the second
  fragment unchanged.
\<close>

definition content_preserved :: "nat \<Rightarrow> byte list \<Rightarrow> byte list \<Rightarrow> bool" where
  "content_preserved offset input out \<longleftrightarrow>
     out = input \<or>
     (out = spec_split offset input
      \<and> length out = length input + 5
      \<and> take 3 out = take 3 input
      \<and> take 3 (drop (offset + 5) out) = take 3 input
      \<and> length_field out + length_field (drop (offset + 5) out) = length_field input
      \<and> drop (length_field input + 10) out = drop (length_field input + 5) input)"

text \<open>
  The two inputs for which content is not preserved. A source that ends inside the five
  header bytes, or inside the payload of a handshake record that would be split, makes a
  read of an armed \<open>ReadFrom\<close> fail. A buffer of \<open>2^32\<close> bytes or more has a length that
  \<open>int32(len(data))\<close> does not hold. A first call is admissible when the writer is not armed
  or the call presents neither.
\<close>

definition ends_inside_record :: "nat \<Rightarrow> byte list \<Rightarrow> bool" where
  "ends_inside_record offset input \<longleftrightarrow>
     length input < 5 \<or>
     (input ! 0 = 22 \<and> offset < length_field input \<and> length_field input \<le> 16384
      \<and> length input < length_field input + 5)"

fun admissible :: "tlsRecordFragWriter \<Rightarrow> call \<Rightarrow> bool" where
  "admissible w (Push data) \<longleftrightarrow>
     \<not> 0 < sint (prefixBytes w) \<or> int (length data) < 2 ^ 32"
| "admissible w (Pull src) \<longleftrightarrow>
     \<not> 0 < sint (prefixBytes w)
     \<or> \<not> ends_inside_record (nat (sint (prefixBytes w))) (concat (chunks src))"

section \<open>Machine integers and buffers\<close>

lemma sint_int32_of_nat: "n < 2 ^ 31 \<Longrightarrow> sint (of_nat n :: int32) = int n"
  by (simp add: signed_of_nat signed_take_bit_int_eq_self)

lemma sint_int32_of_uint16: "sint (ucast (u :: uint16) :: int32) = uint u"
proof -
  have "uint u < 2 ^ 16" using uint_lt2p [of u] by simp
  then have "uint u < 2 ^ 31" by simp
  moreover have "- (2 ^ 31) \<le> uint u"
    by (rule order_trans [of _ 0]) simp_all
  ultimately have "signed_take_bit 31 (uint u) = uint u"
    by (rule signed_take_bit_int_eq_self [rotated])
  then show ?thesis
    by (simp add: signed_ucast_eq)
qed

lemma sint_int32_add:
  "- (2 ^ 31) \<le> sint x + sint y \<Longrightarrow> sint x + sint y < 2 ^ 31 \<Longrightarrow> sint (x + y :: int32) = sint x + sint y"
  by (simp add: sint_word_ariths signed_take_bit_int_eq_self)

lemma sint_int32_diff:
  "- (2 ^ 31) \<le> sint x - sint y \<Longrightarrow> sint x - sint y < 2 ^ 31 \<Longrightarrow> sint (x - y :: int32) = sint x - sint y"
  by (simp add: sint_word_ariths signed_take_bit_int_eq_self)

lemma sint_5: "sint (5 :: int32) = 5" by simp
lemma sint_mrl: "sint maxRecordLength = 16384" by (simp add: maxRecordLength_def)

lemma uint_Uint16: "uint ((ucast (lo :: byte) :: uint16) OR push_bit 8 (ucast (hi :: byte) :: uint16)) = uint hi * 256 + uint lo"
proof -
  have "(ucast lo :: uint16) OR push_bit 8 (ucast hi :: uint16) = word_cat hi lo"
    by (simp add: word_cat_eq_push_bit_or or.commute)
  moreover have "uint hi < 256" "uint lo < 256" "0 \<le> uint hi" "0 \<le> uint lo"
    using uint_lt2p [of hi] uint_lt2p [of lo] by simp_all
  ultimately show ?thesis
    by (simp add: word_cat_eq uint_word_ariths uint_up_ucast is_up push_bit_eq_mult)
qed


lemma copy_at_zeros:
  assumes "off = int (length A)" and "length src \<le> k"
  shows "copy_at (A @ replicate k 0) off src = Some ((A @ src) @ replicate (k - length src) 0)"
  using assms by (simp add: copy_at_def min_def)

lemma PutUint16_at_zeros:
  assumes "off = int (length A)" and "2 \<le> k"
  shows "PutUint16_at (A @ replicate k 0) off v
         = Some ((A @ [ucast (drop_bit 8 v), ucast v]) @ replicate (k - 2) 0)"
proof -
  obtain j where k: "k = Suc (Suc j)"
    using assms(2) by (metis Suc_le_D numeral_2_eq_2 Suc_le_mono)
  show ?thesis
    using assms(1) by (simp add: PutUint16_at_def k list_update_append)
qed

lemma ucast_uint16_byte_of_nat: "(ucast (of_nat m :: uint16) :: byte) = of_nat m"
  by (intro bit_word_eqI) (auto simp: bit_simps)

lemma byte_of_nat_mod: "(of_nat (n mod 256) :: byte) = of_nat n"
proof -
  have "n mod 256 = take_bit 8 n" by (simp add: take_bit_eq_mod)
  then show ?thesis
    by (intro bit_word_eqI) (auto simp: bit_simps bit_take_bit_iff)
qed

lemma be16_of_word:
  assumes "n < 65536"
  shows "[ucast (drop_bit 8 (of_nat n :: uint16)), ucast (of_nat n :: uint16)] = be16 n"
proof -
  have "unat (of_nat n :: uint16) = n"
    using assms by (simp add: unat_of_nat)
  then have "unat (drop_bit 8 (of_nat n :: uint16)) = n div 256"
    by (simp only: unat_drop_bit_eq) (simp add: drop_bit_eq_div)
  then have "drop_bit 8 (of_nat n :: uint16) = of_nat (n div 256)"
    by (metis of_nat_unat ucast_id)
  then show ?thesis
    by (simp add: be16_def ucast_uint16_byte_of_nat byte_of_nat_mod)
qed


lemma length_field_less: "length_field data < 65536"
proof -
  have "unat (data ! 3) < 256" "unat (data ! 4) < 256"
    using unsigned_less [of "data ! 3", where 'a = nat] unsigned_less [of "data ! 4", where 'a = nat]
    by simp_all
  then show ?thesis
    by (simp add: length_field_def)
qed

lemma Uint16_length_field:
  assumes "5 \<le> length data"
  shows "Uint16 (drop 3 data) = Some (of_nat (length_field data))"
proof -
  have "uint ((ucast (data ! 4) :: uint16) OR push_bit 8 (ucast (data ! 3)))
        = int (length_field data)"
    by (simp add: uint_Uint16 length_field_def)
  then have "(ucast (data ! 4) :: uint16) OR push_bit 8 (ucast (data ! 3))
             = of_nat (length_field data)"
    by (metis of_int_of_nat_eq word_of_int_uint)
  moreover have "drop 3 data ! 0 = data ! 3" "drop 3 data ! 1 = data ! 4"
    using assms by simp_all
  moreover have "\<not> length (drop 3 data) < 2"
    using assms by simp
  ultimately show ?thesis
    by (simp only: Uint16_def if_False)
qed

lemma sint_length_field:
  "sint (ucast (of_nat (length_field data) :: uint16) :: int32) = int (length_field data)"
proof -
  have "unat (of_nat (length_field data) :: uint16) = length_field data"
    using length_field_less [of data] by (simp add: unat_of_nat)
  then have "uint (of_nat (length_field data) :: uint16) = int (length_field data)"
    by (metis uint_nat)
  then show ?thesis
    by (simp only: sint_int32_of_uint16)
qed

lemma uint16_of_int32:
  fixes x :: int32
  assumes "0 \<le> sint x"
  shows "(ucast x :: uint16) = of_nat (nat (sint x))"
proof -
  have "sint x < 2 ^ 32"
    using sint_lt [of x] by simp
  then have "uint x = sint x"
    using assms by (simp add: uint_sint [of x] take_bit_int_eq_self)
  then have "unat x = nat (sint x)"
    by (simp only: unat_eq_nat_uint)
  then show ?thesis
    by (metis of_nat_unat)
qed



lemma fragment_split:
  fixes pb :: int32 and data :: "byte list"
  defines "off \<equiv> nat (sint pb)"
  defines "n \<equiv> length_field data"
  assumes p: "0 < sint pb" and L: "int (length data) + 5 < 2 ^ 31"
    and sp: "off + 5 < length data"
    and n1: "n \<le> length data - 5"
    and n2: "off < n"
    and n3: "n \<le> 16384"
  shows "fragment pb data (drop 5 data) (of_nat (length data)) (ucast (of_nat n :: uint16))
           (n < length data - 5)
         = Some (spec_split off data)"
proof -
  define len :: int32 where "len = of_nat (length data)"
  define rl :: int32 where "rl = ucast (of_nat n :: uint16)"
  define pl where "pl = drop 5 data"
  define hdr where "hdr = take 3 data"
  have soff: "sint pb = int off" using p by (simp add: off_def)
  have slen: "sint len = int (length data)"
    unfolding len_def using L by (intro sint_int32_of_nat) simp
  have srl: "sint rl = int n"
    unfolding rl_def n_def by (rule sint_length_field)
  have s5: "sint (5 + pb) = int off + 5"
    using soff sp L by (subst sint_int32_add) simp_all
  have s8: "sint (5 + 3 + pb) = int off + 8"
    using soff sp L by (subst sint_int32_add) simp_all
  have s10: "sint (5 + 5 + pb) = int off + 10"
    using soff sp L by (subst sint_int32_add) simp_all
  have s10r: "sint (5 + 5 + rl) = int n + 10"
    using srl n3 by (subst sint_int32_add) simp_all
  have slen5: "sint (len + 5) = int (length data) + 5"
    using slen L by (subst sint_int32_add) simp_all
  have L5: "5 \<le> length data" using sp by simp
  have lpl: "length pl = length data - 5" by (simp add: pl_def)
  have g5: "make_bytes (sint (len + 5)) = Some (replicate (length data + 5) 0)"
    by (simp add: make_bytes_def slen5 nat_add_distrib)
  have g6: "slice_to data 3 = Some hdr"
    using L5 by (simp add: slice_to_def hdr_def)
  have g7: "slice_to pl (sint pb) = Some (take off pl)"
    using sp by (simp add: slice_to_def soff lpl)
  have g8: "slice pl (sint pb) (sint rl) = Some (drop off (take n pl))"
    using n1 n2 by (simp add: slice_def soff srl lpl)
  have g9: "slice_from pl (sint rl) = Some (drop n pl)"
    using n1 by (simp add: slice_from_def srl lpl)
  have lh: "length hdr = 3" using L5 by (simp add: hdr_def)
  have l1: "length (take off pl) = off" using sp by (simp add: lpl)
  have l2: "length (drop off (take n pl)) = n - off" using n1 by (simp add: lpl)
  have l3: "length (drop n pl) = length data - 5 - n" by (simp add: lpl)
  have u1: "(ucast pb :: uint16) = of_nat off"
    using uint16_of_int32 [of pb] soff by simp
  have w1: "[ucast (drop_bit 8 (of_nat off :: uint16)), ucast (of_nat off :: uint16)] = be16 off"
    using n2 n3 by (intro be16_of_word) simp
  have w2: "[ucast (drop_bit 8 (of_nat (n - off) :: uint16)), ucast (of_nat (n - off) :: uint16)]
            = be16 (n - off)"
    using n3 by (intro be16_of_word) simp
  define b1 where "b1 = hdr"
  define b2 where "b2 = b1 @ be16 off"
  define b3 where "b3 = b2 @ take off pl"
  define b4 where "b4 = b3 @ hdr"
  define b5 where "b5 = b4 @ be16 (n - off)"
  define b6 where "b6 = b5 @ drop off (take n pl)"
  have k1: "length b1 = 3" by (simp add: b1_def lh)
  have k2: "length b2 = 5" by (simp add: b2_def k1 be16_def)
  have k3: "length b3 = off + 5" by (simp add: b3_def k2 l1 del: length_take)
  have k4: "length b4 = off + 8" by (simp add: b4_def k3 lh)
  have k5: "length b5 = off + 10" by (simp add: b5_def k4 be16_def)
  have k6: "length b6 = n + 10" using n2 by (simp add: b6_def k5 l2 del: length_take length_drop)
  have h1: "copy_at (replicate (length data + 5) 0) 0 hdr
            = Some (b1 @ replicate (length data + 2) 0)"
    using copy_at_zeros [of 0 "[]" hdr "length data + 5"] by (simp add: lh b1_def)
  have h2: "PutUint16_at (b1 @ replicate (length data + 2) 0) 3 (ucast pb)
            = Some (b2 @ replicate (length data) 0)"
    using PutUint16_at_zeros [of 3 b1 "length data + 2" "of_nat off"] w1
    by (simp add: k1 u1 b2_def)
  have h3: "copy_at (b2 @ replicate (length data) 0) 5 (take off pl)
            = Some (b3 @ replicate (length data - off) 0)"
    using copy_at_zeros [of 5 b2 "take off pl" "length data"] sp
    by (simp add: k2 l1 b3_def del: length_take)
  have h4: "copy_at (b3 @ replicate (length data - off) 0) (int off + 5) hdr
            = Some (b4 @ replicate (length data - off - 3) 0)"
    using copy_at_zeros [of "int off + 5" b3 hdr "length data - off"] sp
    by (simp add: k3 lh b4_def)
  have h5: "PutUint16_at (b4 @ replicate (length data - off - 3) 0) (int off + 8)
              (of_nat (length (drop off (take n pl))))
            = Some (b5 @ replicate (length data - off - 5) 0)"
    using PutUint16_at_zeros [of "int off + 8" b4 "length data - off - 3" "of_nat (n - off)"] w2 sp
    by (simp add: k4 l2 b5_def del: length_drop length_take)
  have h6: "copy_at (b5 @ replicate (length data - off - 5) 0) (int off + 10)
              (drop off (take n pl))
            = Some (b6 @ replicate (length data - 5 - n) 0)"
    using copy_at_zeros [of "int off + 10" b5 "drop off (take n pl)" "length data - off - 5"] sp n1 n2
    by (simp add: k5 l2 b6_def del: length_drop length_take)
  have h7: "copy_at (b6 @ replicate (length data - 5 - n) 0) (int n + 10) (drop n pl)
            = Some (b6 @ drop n pl)"
    using copy_at_zeros [of "int n + 10" b6 "drop n pl" "length data - 5 - n"]
    by (simp add: k6 l3 del: length_drop)
  have fin: "b6 @ drop n pl = spec_split off data"
    by (simp add: spec_split_def b6_def b5_def b4_def b3_def b2_def b1_def hdr_def pl_def
        n_def Let_def)
  have "fragment pb data pl len rl (n < length data - 5) = Some (spec_split off data)"
  proof (cases "n < length data - 5")
    case True
    show ?thesis
      unfolding fragment_def
      by (simp only: True if_True g5 g6 g7 g8 g9 bind.bind_lunit s5 s8 s10 s10r
          h1 h2 h3 h4 h5 h6 h7 fin)
  next
    case False
    then have "length data - 5 - n = 0" by simp
    then have nomore: "b6 @ replicate (length data - 5 - n) 0 = spec_split off data"
      using fin n1 by (simp add: lpl)
    show ?thesis
      unfolding fragment_def
      by (simp only: False if_False g5 g6 g7 g8 g9 bind.bind_lunit s5 s8 s10 s10r
          h1 h2 h3 h4 h5 h6 nomore)
  qed
  then show ?thesis
    by (simp only: pl_def len_def rl_def)
qed

section \<open>Which paths of \<open>Write\<close> return\<close>

lemma Write_disarmed:
  assumes "\<not> 0 < sint (prefixBytes w)"
  shows "Write w data = Some (forward w data)"
  using assms by (simp add: Write_def word_sless_alt)

lemma Write_armed_Some:
  assumes "Write w data = Some x" and "0 < sint (prefixBytes w)"
  shows "x = forward (w\<lparr>prefixBytes := 0\<rparr>) data
         \<or> (\<exists>buf remainder rl hm.
               slice_from data 5 = Some remainder
               \<and> fragment (prefixBytes w) data remainder (of_nat (length data)) rl hm = Some buf
               \<and> x = write_fragmented w buf)"
  using assms unfolding Write_def Let_def
  by (auto simp: bind_eq_Some_conv word_sless_alt split: if_splits)

lemma fragment_Some_record1:
  assumes "fragment pb data remainder len rl hm = Some buf"
  shows "\<exists>r. slice_to remainder (sint pb) = Some r"
  using assms unfolding fragment_def
  by (auto simp: bind_eq_Some_conv)

lemma Write_huge_offset:
  assumes "Write w data = Some x" and "0 < sint (prefixBytes w)"
    and "2 ^ 31 \<le> sint (prefixBytes w) + 5" and "int (length data) + 5 < 2 ^ 31"
  shows "x = forward (w\<lparr>prefixBytes := 0\<rparr>) data"
proof -
  from Write_armed_Some [OF assms(1,2)]
  show ?thesis
  proof
    assume "\<exists>buf remainder rl hm.
               slice_from data 5 = Some remainder
               \<and> fragment (prefixBytes w) data remainder (of_nat (length data)) rl hm = Some buf
               \<and> x = write_fragmented w buf"
    then obtain buf remainder rl hm where
      r: "slice_from data 5 = Some remainder"
      and f: "fragment (prefixBytes w) data remainder (of_nat (length data)) rl hm = Some buf"
      by blast
    from r have "length remainder \<le> length data"
      by (auto simp: slice_from_def split: if_splits)
    moreover from fragment_Some_record1 [OF f]
    have "sint (prefixBytes w) \<le> int (length remainder)"
      by (auto simp: slice_to_def split: if_splits)
    ultimately have False using assms(3,4) by simp
    then show ?thesis ..
  qed
qed

lemma fragment_Some_make:
  assumes "fragment pb data remainder len rl hm = Some buf"
  shows "0 \<le> sint (len + 5)"
  using assms unfolding fragment_def
  by (auto simp: bind_eq_Some_conv make_bytes_def split: if_splits)

lemma Write_large_buffer:
  assumes "Write w data = Some x" and "0 < sint (prefixBytes w)"
    and "2 ^ 31 \<le> int (length data) + 5" and "int (length data) < 2 ^ 31"
  shows "x = forward (w\<lparr>prefixBytes := 0\<rparr>) data"
proof -
  from Write_armed_Some [OF assms(1,2)]
  show ?thesis
  proof
    assume "\<exists>buf remainder rl hm.
               slice_from data 5 = Some remainder
               \<and> fragment (prefixBytes w) data remainder (of_nat (length data)) rl hm = Some buf
               \<and> x = write_fragmented w buf"
    then obtain buf remainder rl hm where
      f: "fragment (prefixBytes w) data remainder (of_nat (length data)) rl hm = Some buf"
      by blast
    have "sint (of_nat (length data) :: int32) = int (length data)"
      using assms(4) by (intro sint_int32_of_nat) simp
    then have "sint (of_nat (length data) + 5 :: int32)
               = signed_take_bit 31 (int (length data) + 5)"
      by (simp add: sint_word_ariths)
    also have "\<dots> \<le> int (length data) + 5 - 2 ^ Suc 31"
      using assms(3) by (intro signed_take_bit_int_less_eq) simp
    also have "\<dots> < 0"
      using assms(4) by simp
    finally have "sint (of_nat (length data) + 5 :: int32) < 0" .
    with fragment_Some_make [OF f] have False by simp
    then show ?thesis ..
  qed
qed

section \<open>\<open>Write\<close> on an armed writer\<close>

lemma fragment_panics:
  fixes pb :: int32 and data :: "byte list"
  assumes p: "0 < sint pb" and L: "int (length data) + 5 < 2 ^ 31"
    and sp: "nat (sint pb) + 5 < length data"
    and n2: "length_field data < nat (sint pb)"
  shows "fragment pb data (drop 5 data) (of_nat (length data))
           (ucast (of_nat (length_field data) :: uint16)) hm = None"
proof -
  define len :: int32 where "len = of_nat (length data)"
  define rl :: int32 where "rl = ucast (of_nat (length_field data) :: uint16)"
  have slen: "sint len = int (length data)"
    unfolding len_def using L by (intro sint_int32_of_nat) simp
  have srl: "sint rl = int (length_field data)"
    unfolding rl_def by (rule sint_length_field)
  have slen5: "sint (len + 5) = int (length data) + 5"
    using slen L by (subst sint_int32_add) simp_all
  have g5: "make_bytes (sint (len + 5)) = Some (replicate (length data + 5) 0)"
    by (simp add: make_bytes_def slen5 nat_add_distrib)
  have g6: "slice_to data 3 = Some (take 3 data)"
    using sp by (simp add: slice_to_def)
  have g7: "slice_to (drop 5 data) (sint pb) = Some (take (nat (sint pb)) (drop 5 data))"
    using sp p by (simp add: slice_to_def)
  have g8: "slice (drop 5 data) (sint pb) (sint rl) = None"
    using n2 p by (simp add: slice_def srl)
  have "fragment pb data (drop 5 data) len rl hm = None"
    unfolding fragment_def
    by (simp only: g5 g6 g7 g8 bind.bind_lunit bind.bind_lzero)
  then show ?thesis
    by (simp only: len_def rl_def)
qed

lemma Write_armed:
  fixes w :: tlsRecordFragWriter and data :: "byte list"
  defines "off \<equiv> nat (sint (prefixBytes w))"
  defines "n \<equiv> length_field data"
  assumes p: "0 < sint (prefixBytes w)" and P: "sint (prefixBytes w) + 5 < 2 ^ 31"
    and L: "int (length data) + 5 < 2 ^ 31"
  shows "Write w data =
           (if length data \<le> off + 5 \<or> data ! 0 \<noteq> 22 \<or> length data - 5 < n \<or> off = n
               \<or> 16384 < n
            then Some (forward (w\<lparr>prefixBytes := 0\<rparr>) data)
            else if n < off then None
            else Some (write_fragmented w (spec_split off data)))"
proof -
  define len :: int32 where "len = of_nat (length data)"
  define rl :: int32 where "rl = ucast (of_nat n :: uint16)"
  define pb where "pb = prefixBytes w"
  have soff: "sint pb = int off" using p by (simp add: off_def pb_def)
  have slen: "sint len = int (length data)"
    unfolding len_def using L by (intro sint_int32_of_nat) simp
  have srl: "sint rl = int n"
    unfolding rl_def n_def by (rule sint_length_field)
  have s5: "sint (pb + 5) = int off + 5"
    using soff P by (subst sint_int32_add) (simp_all add: pb_def)
  have srem: "sint (len - 5) = int (length data) - 5"
    using slen L by (subst sint_int32_diff) simp_all
  have c1: "0 <s pb" using p by (simp add: word_sless_alt pb_def)
  have c2: "len \<le>s pb + 5 \<longleftrightarrow> length data \<le> off + 5"
    by (simp add: word_sle_eq slen s5) linarith
  show ?thesis
  proof (cases "length data \<le> off + 5")
    case True
    then have "len \<le>s pb + 5" by (simp add: c2)
    then have "Write w data = Some (forward (w\<lparr>prefixBytes := 0\<rparr>) data)"
      unfolding Write_def Let_def
      apply (fold len_def pb_def)
      apply (simp only: c1 if_True)
      done
    with True show ?thesis by simp
  next
    case False
    then have sp: "off + 5 < length data" by simp
    then have L5: "5 \<le> length data" by simp
    have nc2: "\<not> len \<le>s pb + 5" using False by (simp add: c2)
    have g1: "slice_from data 3 = Some (drop 3 data)"
      using L5 by (simp add: slice_from_def)
    have g2: "Uint16 (drop 3 data) = Some (of_nat n)"
      unfolding n_def using L5 by (rule Uint16_length_field)
    have g3: "slice_from data 5 = Some (drop 5 data)"
      using L5 by (simp add: slice_from_def)
    have g4: "index data 0 = Some (data ! 0)"
      using L5 by (auto simp: index_def)
    have c3: "len - 5 <s rl \<longleftrightarrow> length data - 5 < n"
      using L5 by (simp add: word_sless_alt srem srl) linarith
    have c4: "pb = rl \<longleftrightarrow> off = n"
      using soff srl by (metis nat_int signed_word_eqI)
    have c5: "maxRecordLength <s rl \<longleftrightarrow> 16384 < n"
      by (simp add: word_sless_alt srl sint_mrl)
    have c6: "rl <s len - 5 \<longleftrightarrow> n < length data - 5"
      using L5 by (simp add: word_sless_alt srem srl) linarith
    have step: "Write w data =
        (if data ! 0 \<noteq> typeHandshake \<or> length data - 5 < n \<or> off = n \<or> 16384 < n
         then Some (forward (w\<lparr>prefixBytes := 0\<rparr>) data)
         else Option.bind (fragment pb data (drop 5 data) len rl (n < length data - 5))
                (\<lambda>buf. Some (write_fragmented w buf)))"
      unfolding Write_def Let_def
      apply (fold len_def pb_def)
      apply (simp only: c1 nc2 if_True if_False g1 g2 g3 g4 bind.bind_lunit)
      apply (fold rl_def)
      apply (simp only: c3 c4 c5 c6)
      done
    show ?thesis
    proof (cases "data ! 0 \<noteq> 22 \<or> length data - 5 < n \<or> off = n \<or> 16384 < n")
      case True
      then show ?thesis
        using step by (auto simp: typeHandshake_def)
    next
      case no: False
      show ?thesis
      proof (cases "n < off")
        case True
        have "fragment pb data (drop 5 data) len rl (n < length data - 5) = None"
          unfolding len_def rl_def n_def pb_def
          using p L sp True by (intro fragment_panics) (simp_all add: off_def n_def)
        then show ?thesis
          using step no True sp by (simp add: typeHandshake_def)
      next
        case False
        with no have "off < n" "n \<le> length data - 5" "n \<le> 16384" by simp_all
        then have "fragment pb data (drop 5 data) len rl (n < length data - 5)
                   = Some (spec_split off data)"
          unfolding len_def rl_def n_def pb_def off_def
          using p L sp by (intro fragment_split) (simp_all add: off_def)
        then show ?thesis
          using step no False sp by (simp add: typeHandshake_def)
      qed
    qed
  qed
qed

section \<open>Reading in full and copying\<close>

lemma read_full_Nil: "read_full [] n = ([], [])"
  by (cases n) simp_all

lemma read_full_Cons:
  "0 < n \<Longrightarrow> read_full (c # cs) n =
     (if length c \<le> n
      then let (bs, rest) = read_full cs (n - length c) in (c @ bs, rest)
      else (take n c, drop n c # cs))"
  by (cases n) simp_all

lemma read_full_content:
  "read_full cs n = (bs, rest) \<Longrightarrow>
     concat cs = bs @ concat rest \<and> length bs \<le> n \<and> (length bs < n \<longrightarrow> rest = [])"
proof (induction cs n arbitrary: bs rest rule: read_full.induct)
  case (1 cs)
  then show ?case by simp
next
  case (2 v)
  then show ?case by simp
next
  case (3 c cs v)
  show ?case
  proof (cases "length c \<le> Suc v")
    case True
    obtain bs' rest' where r: "read_full cs (Suc v - length c) = (bs', rest')"
      by (cases "read_full cs (Suc v - length c)")
    from "3.IH" [OF True r] True "3.prems" r
    show ?thesis by auto
  next
    case False
    with "3.prems" show ?thesis by auto
  qed
qed

lemma io_ReadFull_content:
  assumes "io_ReadFull src n = (bs, err, src')"
  shows "concat (chunks src) = bs @ concat (chunks src')"
    and "final src' = final src"
    and "err = None \<longleftrightarrow> length bs = n"
    and "err \<noteq> None \<Longrightarrow> chunks src' = [] \<and> length bs < n"
    and "err \<noteq> None \<Longrightarrow>
           err = Some (if bs \<noteq> [] \<and> final src = EOF then ErrUnexpectedEOF else final src)"
proof -
  obtain bs0 rest where r: "read_full (chunks src) n = (bs0, rest)"
    by (cases "read_full (chunks src) n")
  note c = read_full_content [OF r]
  from assms r have e: "bs = bs0" "src' = src\<lparr>chunks := rest\<rparr>"
    "err = (if n \<le> length bs0 then None
            else if bs0 \<noteq> [] \<and> final src = EOF then Some ErrUnexpectedEOF
            else Some (final src))"
    by (auto simp: io_ReadFull_def)
  show "concat (chunks src) = bs @ concat (chunks src')" using c e by simp
  show "final src' = final src" using e by simp
  show "err = None \<longleftrightarrow> length bs = n" using c e by auto
  show "err \<noteq> None \<Longrightarrow> chunks src' = [] \<and> length bs < n" using c e by (auto split: if_splits)
  show "err \<noteq> None \<Longrightarrow>
           err = Some (if bs \<noteq> [] \<and> final src = EOF then ErrUnexpectedEOF else final src)"
    using c e by (auto split: if_splits)
qed

declare copy_loop.simps [simp del]

lemma copy_loop_step:
  fixes dst :: sink and c :: "byte list" and cs :: "byte list list"
  defines "p \<equiv> take copy_buffer_size c"
  defines "rest \<equiv> (if length c \<le> copy_buffer_size then cs else drop copy_buffer_size c # cs)"
  defines "nw0 \<equiv> fst (behaviour dst (received dst) p)"
  defines "ew0 \<equiv> snd (behaviour dst (received dst) p)"
  defines "dst' \<equiv> dst\<lparr>received := received dst @ [p]\<rparr>"
  defines "nw \<equiv> (if nw0 < 0 \<or> int (length p) < nw0 then 0 else nw0)"
  defines "ew \<equiv> (if nw0 < 0 \<or> int (length p) < nw0
                  then (if ew0 = None then Some errInvalidWrite else ew0) else ew0)"
  shows "copy_loop dst (c # cs) fin written =
           (if p = [] then copy_loop dst rest fin written
            else if ew \<noteq> None then ((written + nw, ew), dst', rest)
            else if int (length p) \<noteq> nw then ((written + nw, Some ErrShortWrite), dst', rest)
            else copy_loop dst' rest fin (written + nw))"
  unfolding p_def rest_def nw0_def ew0_def dst'_def nw_def ew_def
  by (subst copy_loop.simps(2)) (simp add: Let_def sink_Write_def case_prod_beta)


lemma copy_loop_Nil:
  "copy_loop dst [] fin written = ((written, if fin = EOF then None else Some fin), dst, [])"
  by (simp add: copy_loop.simps)

lemma chunk_measure_rest:
  "chunk_measure (if length c \<le> copy_buffer_size then cs else drop copy_buffer_size c # cs)
   < chunk_measure (c # cs)"
  by (auto simp: chunk_measure_def copy_buffer_size_def)

lemma copy_loop_log:
  "\<exists>new. received (fst (snd (copy_loop dst cs fin wr))) = received dst @ new
         \<and> behaviour (fst (snd (copy_loop dst cs fin wr))) = behaviour dst
         \<and> (\<exists>tl. concat cs = concat new @ tl)
         \<and> (snd (fst (copy_loop dst cs fin wr)) = None \<longrightarrow> concat new = concat cs)"
proof (induction "chunk_measure cs" arbitrary: dst cs wr rule: less_induct)
  case less
  show ?case
  proof (cases cs)
    case Nil
    then show ?thesis by (simp add: copy_loop_Nil)
  next
    case (Cons c cs')
    define p where "p = take copy_buffer_size c"
    define rest where
      "rest = (if length c \<le> copy_buffer_size then cs' else drop copy_buffer_size c # cs')"
    define dst' where "dst' = dst\<lparr>received := received dst @ [p]\<rparr>"
    have cc: "concat cs = p @ concat rest"
      by (simp add: Cons p_def rest_def)
    have m: "chunk_measure rest < chunk_measure cs"
      unfolding rest_def Cons by (rule chunk_measure_rest)
    define nw0 ew0 where nw0: "nw0 = fst (behaviour dst (received dst) p)"
      and ew0: "ew0 = snd (behaviour dst (received dst) p)"
    define nw where "nw = (if nw0 < 0 \<or> int (length p) < nw0 then 0 else nw0)"
    define ew where "ew = (if nw0 < 0 \<or> int (length p) < nw0
                  then (if ew0 = None then Some errInvalidWrite else ew0) else ew0)"
    note step = copy_loop_step [of dst c cs' fin wr,
        folded p_def rest_def dst'_def, folded nw0 ew0, folded nw_def ew_def]
    have "p = [] \<or> (\<exists>e. ew = Some e) \<or> (ew = None \<and> int (length p) \<noteq> nw)
          \<or> (p \<noteq> [] \<and> ew = None \<and> int (length p) = nw)"
      by auto
    then consider (empty) "p = []" "copy_loop dst cs fin wr = copy_loop dst rest fin wr"
      | (stop) e n where "p \<noteq> []" "copy_loop dst cs fin wr = ((n, Some e), dst', rest)"
      | (go) n where "p \<noteq> []" "copy_loop dst cs fin wr = copy_loop dst' rest fin n"
      unfolding Cons step by (cases "p = []") (auto simp: dst'_def)
    then show ?thesis
    proof cases
      case empty
      from less [OF m, of dst wr] empty cc show ?thesis by simp
    next
      case stop
      then show ?thesis
        using cc by (auto simp: dst'_def)
    next
      case go
      from less [OF m, of dst' n]
      obtain new tl where
        n: "received (fst (snd (copy_loop dst' rest fin n))) = received dst' @ new"
           "behaviour (fst (snd (copy_loop dst' rest fin n))) = behaviour dst'"
           "concat rest = concat new @ tl"
           "snd (fst (copy_loop dst' rest fin n)) = None \<longrightarrow> concat new = concat rest"
        by (elim exE conjE) (rule that)
      show ?thesis
        unfolding go(2) cc
        using n by (intro exI [of _ "p # new"]) (auto simp: dst'_def)
    qed
  qed
qed

lemma io_Copy_log:
  assumes "io_Copy dst src = ((k, err), dst', src')"
  shows "\<exists>new. received dst' = received dst @ new \<and> behaviour dst' = behaviour dst
           \<and> (\<exists>tl. concat (chunks src) = concat new @ tl)
           \<and> (err = None \<longrightarrow> concat new = concat (chunks src))"
  using assms copy_loop_log [of dst "chunks src" "final src" 0]
  by (auto simp: io_Copy_def case_prod_beta)

section \<open>\<open>ReadFrom\<close> on an armed writer\<close>

lemma slice_zeros_after:
  assumes "i = int (length A)" and "j = int (length A) + int m" and "m \<le> k"
  shows "slice (A @ replicate k (0 :: byte)) i j = Some (replicate m 0)"
proof -
  have "nat j = length A + m" using assms by simp
  then show ?thesis
    using assms by (simp add: slice_def min_def)
qed

lemma slice_from_zeros_after:
  assumes "i = int (length A)"
  shows "slice_from (A @ replicate k (0 :: byte)) i = Some (replicate k 0)"
  using assms by (simp add: slice_from_def)

lemma spec_split_whole_record:
  assumes "length hdr = 5" and "length bytes1 = off" and "length bytes2 = length_field hdr - off"
    and "off < length_field hdr"
  shows "spec_split off (hdr @ bytes1 @ bytes2)
         = take 3 hdr @ be16 off @ bytes1 @ take 3 hdr @ be16 (length_field hdr - off) @ bytes2"
proof -
  have "length_field (hdr @ bytes1 @ bytes2) = length_field hdr"
    using assms(1) by (simp add: length_field_def nth_append)
  then show ?thesis
    using assms by (simp add: spec_split_def Let_def)
qed

lemma ReadFrom_armed:
  fixes w :: tlsRecordFragWriter and src :: source
  defines "off \<equiv> nat (sint (prefixBytes w))"
  assumes p: "0 < sint (prefixBytes w)"
  shows "ReadFrom w src = Some (
     let (hdr, err, src1) = io_ReadFull src 5 in
     if err \<noteq> None then ((0, err), w, src1)
     else let n = length_field hdr in
       if hdr ! 0 \<noteq> 22 \<or> n \<le> off \<or> 16384 < n then dontFrag w hdr src1
       else let (bytes1, err, src2) = io_ReadFull src1 off in
         if err \<noteq> None then ((0, err), w\<lparr>prefixBytes := 0\<rparr>, src2)
         else let (bytes2, err, src3) = io_ReadFull src2 (n - off) in
           if err \<noteq> None then ((0, err), w\<lparr>prefixBytes := 0\<rparr>, src3)
           else let buf = spec_split off (hdr @ bytes1 @ bytes2);
                    ((tmp, err), s) = sink_Write (writer w) buf;
                    w' = w\<lparr>writer := s, prefixBytes := 0\<rparr>;
                    written = (if 5 \<le> tmp then tmp - 5 else tmp)
                in if err \<noteq> None then ((written, err), w', src3)
                   else copy_rest written w' src3)"
    (is "_ = Some ?R")
proof -
  define pb where "pb = prefixBytes w"
  have c1: "0 <s pb" using p by (simp add: word_sless_alt pb_def)
  have soff: "sint pb = int off" using p by (simp add: off_def pb_def)
  obtain hdr err src1 where rf: "io_ReadFull src 5 = (hdr, err, src1)"
    by (cases "io_ReadFull src 5")
  show ?thesis
  proof (cases "err = None")
    case False
    then have e: "(err \<noteq> None) = True" by simp
    have "ReadFrom w src = Some ((0, err), w, src1)"
      unfolding ReadFrom_def
      apply (fold pb_def)
      apply (simp only: c1 if_True rf Let_def prod.case e)
      done
    moreover have "?R = ((0, err), w, src1)"
      using False by (simp add: rf)
    ultimately show ?thesis by simp
  next
    case True
    then have e: "(err \<noteq> None) = False" by simp
    have lh: "length hdr = 5"
      using io_ReadFull_content(3) [OF rf] True by simp
    define n where "n = length_field hdr"
    define rl :: int32 where "rl = ucast (of_nat n :: uint16)"
    have srl: "sint rl = int n"
      unfolding rl_def n_def by (rule sint_length_field)
    have g1: "slice_from hdr 3 = Some (drop 3 hdr)"
      using lh by (simp add: slice_from_def)
    have g2: "Uint16 (drop 3 hdr) = Some (of_nat n)"
      unfolding n_def using lh by (intro Uint16_length_field) simp
    have g4: "index hdr 0 = Some (hdr ! 0)"
      using lh by (auto simp: index_def)
    have c3: "rl \<le>s pb \<longleftrightarrow> n \<le> off"
      by (simp add: word_sle_eq srl soff)
    have c5: "maxRecordLength <s rl \<longleftrightarrow> 16384 < n"
      by (simp add: word_sless_alt srl sint_mrl)
    show ?thesis
    proof (cases "hdr ! 0 \<noteq> 22 \<or> n \<le> off \<or> 16384 < n")
      case pass: True
      have "ReadFrom w src = Some (dontFrag w hdr src1)"
      proof (cases "hdr ! 0 \<noteq> 22 \<or> n \<le> off")
        case True
        then have t: "(hdr ! 0 \<noteq> typeHandshake \<or> rl \<le>s pb) = True"
          by (simp add: typeHandshake_def c3)
        show ?thesis
          unfolding ReadFrom_def
          apply (fold pb_def)
          apply (simp only: c1 if_True if_False rf Let_def prod.case e g1 g2 g4 bind.bind_lunit)
          apply (fold rl_def)
          apply (simp only: t if_True)
          done
      next
        case False
        then have t: "(hdr ! 0 \<noteq> typeHandshake \<or> rl \<le>s pb) = False"
          by (simp add: typeHandshake_def c3)
        from False pass have t2: "(maxRecordLength <s rl) = True"
          by (simp add: c5)
        show ?thesis
          unfolding ReadFrom_def
          apply (fold pb_def)
          apply (simp only: c1 if_True if_False rf Let_def prod.case e g1 g2 g4 bind.bind_lunit)
          apply (fold rl_def)
          apply (simp only: t t2 if_True if_False)
          done
      qed
      moreover have "?R = dontFrag w hdr src1"
        using True pass by (simp add: rf n_def)
      ultimately show ?thesis by simp
    next
      case elig: False
      then have ty: "hdr ! 0 = 22" and n2: "off < n" and n3: "n \<le> 16384" by simp_all
      have t: "(hdr ! 0 \<noteq> typeHandshake \<or> rl \<le>s pb) = False"
        using elig by (simp add: typeHandshake_def c3)
      have t2: "(maxRecordLength <s rl) = False"
        using elig by (simp add: c5)
      have s5: "sint (5 + pb) = int off + 5"
        using soff n2 n3 by (subst sint_int32_add) simp_all
      have s10: "sint (10 + pb) = int off + 10"
        using soff n2 n3 by (subst sint_int32_add) simp_all
      have s10n: "sint (rl + 10) = int n + 10"
        using srl n3 by (subst sint_int32_add) simp_all
      have sdiff: "sint (rl - pb) = int n - int off"
        using srl soff n2 n3 by (subst sint_int32_diff) simp_all
      define h3 where "h3 = take 3 hdr"
      define b2 where "b2 = h3 @ be16 off"
      have lh3: "length h3 = 3" using lh by (simp add: h3_def)
      have k2: "length b2 = 5" by (simp add: b2_def lh3 be16_def)
      have u1: "(ucast pb :: uint16) = of_nat off"
        using uint16_of_int32 [of pb] soff by simp
      have u2: "(ucast (rl - pb) :: uint16) = of_nat (n - off)"
        using uint16_of_int32 [of "rl - pb"] sdiff n2 by (simp add: nat_diff_distrib)
      have w1: "[ucast (drop_bit 8 (of_nat off :: uint16)), ucast (of_nat off :: uint16)] = be16 off"
        using n2 n3 by (intro be16_of_word) simp
      have w2: "[ucast (drop_bit 8 (of_nat (n - off) :: uint16)), ucast (of_nat (n - off) :: uint16)]
                = be16 (n - off)"
        using n3 by (intro be16_of_word) simp
      have g5: "make_bytes (sint (rl + 10)) = Some (replicate (n + 10) 0)"
        by (simp add: make_bytes_def s10n nat_add_distrib)
      have g6: "slice_to hdr 3 = Some h3"
        using lh by (simp add: slice_to_def h3_def)
      have h1: "copy_at (replicate (n + 10) 0) 0 h3 = Some (h3 @ replicate (n + 7) 0)"
        using copy_at_zeros [of 0 "[]" h3 "n + 10"] by (simp add: lh3)
      have h2: "PutUint16_at (h3 @ replicate (n + 7) 0) 3 (ucast pb)
                = Some (b2 @ replicate (n + 5) 0)"
        using PutUint16_at_zeros [of 3 h3 "n + 7" "of_nat off"] w1
        by (simp add: lh3 u1 b2_def)
      have sl1: "slice (b2 @ replicate (n + 5) 0) 5 (sint (5 + pb)) = Some (replicate off 0)"
        unfolding s5 using n2 by (intro slice_zeros_after) (simp_all add: k2)
      have lr1: "length (replicate off (0 :: byte)) = off" by simp
      obtain bytes1 err1 src2 where rf1: "io_ReadFull src1 off = (bytes1, err1, src2)"
        by (cases "io_ReadFull src1 off")
      show ?thesis
      proof (cases "err1 = None")
        case False
        then have e1: "(err1 \<noteq> None) = True" by simp
        have "ReadFrom w src = Some ((0, err1), w\<lparr>prefixBytes := 0\<rparr>, src2)"
          unfolding ReadFrom_def
          apply (fold pb_def)
          apply (simp only: c1 if_True if_False rf Let_def prod.case e g1 g2 g4 bind.bind_lunit)
          apply (fold rl_def)
          apply (simp only: t t2 if_True if_False g5 g6 h1 h2 sl1 lr1 rf1 prod.case
              bind.bind_lunit e1)
          done
        moreover have "?R = ((0, err1), w\<lparr>prefixBytes := 0\<rparr>, src2)"
          using True elig False by (simp add: rf rf1 n_def)
        ultimately show ?thesis by simp
      next
        case ok1: True
        then have e1: "(err1 \<noteq> None) = False" by simp
        have l1: "length bytes1 = off"
          using io_ReadFull_content(3) [OF rf1] ok1 by simp
        define b3 where "b3 = b2 @ bytes1"
        define b4 where "b4 = b3 @ h3"
        define b5 where "b5 = b4 @ be16 (n - off)"
        have k3: "length b3 = off + 5" by (simp add: b3_def k2 l1)
        have k4: "length b4 = off + 8" by (simp add: b4_def k3 lh3)
        have k5: "length b5 = off + 10" by (simp add: b5_def k4 be16_def)
        have il: "int (length bytes1) = int off" by (simp add: l1)
        have h3': "copy_at (b2 @ replicate (n + 5) 0) 5 bytes1
                   = Some (b3 @ replicate (n + 5 - off) 0)"
          using copy_at_zeros [of 5 b2 bytes1 "n + 5"] n2 by (simp add: k2 l1 b3_def)
        have h4: "copy_at (b3 @ replicate (n + 5 - off) 0) (5 + int off) h3
                  = Some (b4 @ replicate (n + 2 - off) 0)"
          using copy_at_zeros [of "5 + int off" b3 h3 "n + 5 - off"] n2
          by (simp add: k3 lh3 b4_def)
        have h5: "PutUint16_at (b4 @ replicate (n + 2 - off) 0) (5 + int off + 3) (ucast (rl - pb))
                  = Some (b5 @ replicate (n - off) 0)"
          using PutUint16_at_zeros [of "5 + int off + 3" b4 "n + 2 - off" "of_nat (n - off)"] w2 n2
          by (simp add: k4 u2 b5_def)
        have sl2: "slice_from (b5 @ replicate (n - off) 0) (sint (10 + pb))
                   = Some (replicate (n - off) 0)"
          unfolding s10 by (intro slice_from_zeros_after) (simp add: k5)
        have lr2: "length (replicate (n - off) (0 :: byte)) = n - off" by simp
        obtain bytes2 err2 src3 where rf2: "io_ReadFull src2 (n - off) = (bytes2, err2, src3)"
          by (cases "io_ReadFull src2 (n - off)")
        show ?thesis
        proof (cases "err2 = None")
          case False
          then have e2: "(err2 \<noteq> None) = True" by simp
          have "ReadFrom w src = Some ((0, err2), w\<lparr>prefixBytes := 0\<rparr>, src3)"
            unfolding ReadFrom_def
            apply (fold pb_def)
            apply (simp only: c1 if_True if_False rf Let_def prod.case e g1 g2 g4 bind.bind_lunit)
            apply (fold rl_def)
            apply (simp only: t t2 if_True if_False g5 g6 h1 h2 sl1 lr1 rf1 prod.case
                bind.bind_lunit e1 il h3' h4 h5 sl2 lr2 rf2 e2)
            done
          moreover have "?R = ((0, err2), w\<lparr>prefixBytes := 0\<rparr>, src3)"
            using True elig ok1 False by (simp add: rf rf1 rf2 n_def [symmetric])
          ultimately show ?thesis by simp
        next
          case ok2: True
          then have e2: "(err2 \<noteq> None) = False" by simp
          have l2: "length bytes2 = n - off"
            using io_ReadFull_content(3) [OF rf2] ok2 by simp
          have h6: "copy_at (b5 @ replicate (n - off) 0) (sint (10 + pb)) bytes2
                    = Some (b5 @ bytes2)"
            unfolding s10
            using copy_at_zeros [of "int off + 10" b5 bytes2 "n - off"]
            by (simp add: k5 l2)
          have fin: "b5 @ bytes2 = spec_split off (hdr @ bytes1 @ bytes2)"
            using spec_split_whole_record [of hdr bytes1 off bytes2] lh l1 l2 n2
            by (simp add: n_def b5_def b4_def b3_def b2_def h3_def)
          define buf where "buf = spec_split off (hdr @ bytes1 @ bytes2)"
          have "ReadFrom w src =
                  (case sink_Write (writer w) buf of
                     ((tmp, err), s) \<Rightarrow>
                       if err \<noteq> None
                       then Some ((if 5 \<le> tmp then tmp - 5 else tmp, err),
                                  w\<lparr>writer := s, prefixBytes := 0\<rparr>, src3)
                       else Some (copy_rest (if 5 \<le> tmp then tmp - 5 else tmp)
                                    (w\<lparr>writer := s, prefixBytes := 0\<rparr>) src3))"
            unfolding ReadFrom_def
            apply (fold pb_def)
            apply (simp only: c1 if_True if_False rf Let_def prod.case e g1 g2 g4 bind.bind_lunit)
            apply (fold rl_def)
            apply (simp only: t t2 if_True if_False g5 g6 h1 h2 sl1 lr1 rf1 prod.case
                bind.bind_lunit e1 il h3' h4 h5 sl2 lr2 rf2 e2 h6 fin)
            apply (fold buf_def)
            apply (simp add: case_prod_beta)
            done
          moreover have "Some ?R =
                  (case sink_Write (writer w) buf of
                     ((tmp, err), s) \<Rightarrow>
                       if err \<noteq> None
                       then Some ((if 5 \<le> tmp then tmp - 5 else tmp, err),
                                  w\<lparr>writer := s, prefixBytes := 0\<rparr>, src3)
                       else Some (copy_rest (if 5 \<le> tmp then tmp - 5 else tmp)
                                    (w\<lparr>writer := s, prefixBytes := 0\<rparr>) src3))"
            using True elig ok1 ok2
            by (simp add: rf rf1 rf2 n_def [symmetric] buf_def [symmetric] case_prod_beta Let_def)
          ultimately show ?thesis by simp
        qed
      qed
    qed
  qed
qed

section \<open>What the sink is handed\<close>

lemma forward_log:
  assumes "forward w data = (r, w')"
  shows "received (writer w') = received (writer w) @ [data]"
    and "behaviour (writer w') = behaviour (writer w)"
    and "prefixBytes w' = prefixBytes w"
    and "r = behaviour (writer w) (received (writer w)) data"
  using assms by (auto simp: forward_def sink_Write_def)

lemma write_fragmented_log:
  assumes "write_fragmented w buf = (r, w')"
  shows "received (writer w') = received (writer w) @ [buf]"
    and "behaviour (writer w') = behaviour (writer w)"
    and "prefixBytes w' = 0"
    and "r = (let (m, e) = behaviour (writer w) (received (writer w)) buf
              in (if 5 \<le> m then m - 5 else m, e))"
  using assms by (auto simp: write_fragmented_def forward_def sink_Write_def case_prod_beta)

lemma copy_rest_log:
  assumes "copy_rest k w src = ((k', err), w', src')"
  shows "prefixBytes w' = prefixBytes w"
    and "\<exists>new. received (writer w') = received (writer w) @ new
           \<and> (\<exists>rest. concat (chunks src) = concat new @ rest)
           \<and> (err = None \<longrightarrow> concat new = concat (chunks src))"
proof -
  obtain n e s src1 where c: "io_Copy (writer w) src = ((n, e), s, src1)"
    by (metis prod_cases3 surj_pair)
  from assms c have eq: "err = e" "w' = w\<lparr>writer := s\<rparr>"
    by (simp_all add: copy_rest_def)
  show "prefixBytes w' = prefixBytes w" using eq by simp
  from io_Copy_log [OF c] eq
  show "\<exists>new. received (writer w') = received (writer w) @ new
           \<and> (\<exists>rest. concat (chunks src) = concat new @ rest)
           \<and> (err = None \<longrightarrow> concat new = concat (chunks src))"
    by auto
qed

lemma dontFrag_log:
  assumes "dontFrag w first src = ((k, err), w', src')"
  shows "prefixBytes w' = 0"
    and "\<exists>new. received (writer w') = received (writer w) @ first # new
           \<and> (\<exists>rest. concat (chunks src) = concat new @ rest)
           \<and> (err = None \<longrightarrow> concat new = concat (chunks src))"
proof -
  define w1 where "w1 = w\<lparr>writer := snd (sink_Write (writer w) first), prefixBytes := 0\<rparr>"
  define tmp where "tmp = fst (fst (sink_Write (writer w) first))"
  define e where "e = snd (fst (sink_Write (writer w) first))"
  have r1: "received (writer w1) = received (writer w) @ [first]" "prefixBytes w1 = 0"
    by (simp_all add: w1_def sink_Write_def)
  have d: "dontFrag w first src =
             (if e \<noteq> None then ((tmp, e), w1, src) else copy_rest tmp w1 src)"
    by (simp add: dontFrag_def w1_def tmp_def e_def case_prod_beta Let_def)
  show "prefixBytes w' = 0"
  proof (cases "e \<noteq> None")
    case True
    with assms d r1 show ?thesis by simp
  next
    case False
    with assms d have "copy_rest tmp w1 src = ((k, err), w', src')" by simp
    from copy_rest_log(1) [OF this] r1 show ?thesis by simp
  qed
  show "\<exists>new. received (writer w') = received (writer w) @ first # new
           \<and> (\<exists>rest. concat (chunks src) = concat new @ rest)
           \<and> (err = None \<longrightarrow> concat new = concat (chunks src))"
  proof (cases "e \<noteq> None")
    case True
    with assms d have "w' = w1" "err = e" by simp_all
    with True r1 show ?thesis
      by (intro exI [of _ "[]"]) auto
  next
    case False
    with assms d have "copy_rest tmp w1 src = ((k, err), w', src')" by simp
    from copy_rest_log(2) [OF this] r1 show ?thesis by auto
  qed
qed

lemma unat_byte_of_nat: "n < 256 \<Longrightarrow> unat (of_nat n :: byte) = n"
  by (simp add: unat_of_nat)

lemma length_field_be16:
  assumes "length A = 3" and "n < 65536"
  shows "length_field (A @ be16 n @ B) = n"
proof -
  have "n div 256 < 256" using assms(2) by simp
  then have "unat (of_nat (n div 256) :: byte) = n div 256"
    by (rule unat_byte_of_nat)
  moreover have "unat (of_nat (n mod 256) :: byte) = n mod 256"
    by (rule unat_byte_of_nat) simp
  ultimately show ?thesis
    using assms(1) by (simp add: length_field_def be16_def nth_append)
qed

lemma spec_split_facts:
  fixes input :: "byte list"
  defines "n \<equiv> length_field input"
  assumes "off < n" and "n + 5 \<le> length input"
  defines "out \<equiv> spec_split off input"
  shows "length out = length input + 5"
    and "take 3 out = take 3 input"
    and "take 3 (drop (off + 5) out) = take 3 input"
    and "length_field out = off"
    and "length_field (drop (off + 5) out) = n - off"
    and "drop (n + 10) out = drop (n + 5) input"
proof -
  define h3 where "h3 = take 3 input"
  define pl where "pl = drop 5 input"
  have lh: "length h3 = 3" using assms(3) by (simp add: h3_def)
  have n65: "n < 65536" unfolding n_def by (rule length_field_less)
  have lpl: "length pl = length input - 5" by (simp add: pl_def)
  have l1: "length (take off pl) = off" using assms by (simp add: lpl)
  have l2: "length (drop off (take n pl)) = n - off" using assms by (simp add: lpl)
  have out: "out = h3 @ be16 off @ take off pl @ h3 @ be16 (n - off)
                   @ drop off (take n pl) @ drop n pl"
    by (simp add: out_def spec_split_def Let_def h3_def pl_def n_def)
  show "length out = length input + 5"
    using assms(2,3) by (simp add: out lh be16_def lpl)
  show "take 3 out = take 3 input"
    by (simp add: out lh h3_def [symmetric])
  have d: "drop (off + 5) out = h3 @ be16 (n - off) @ drop off (take n pl) @ drop n pl"
    using l1 by (simp add: out lh be16_def del: length_take)
  show "take 3 (drop (off + 5) out) = take 3 input"
    by (simp add: d lh h3_def [symmetric])
  show "length_field out = off"
    unfolding out using lh n65 assms(2) by (intro length_field_be16) simp_all
  show "length_field (drop (off + 5) out) = n - off"
    unfolding d using lh n65 by (intro length_field_be16) simp_all
  define A where "A = h3 @ be16 off @ take off pl @ h3 @ be16 (n - off) @ drop off (take n pl)"
  have "length A = n + 10"
    using l1 l2 assms(2) by (simp add: A_def lh be16_def del: length_take length_drop)
  moreover have "out = A @ drop n pl"
    by (simp add: out A_def)
  ultimately have "drop (n + 10) out = drop n pl"
    by (metis append_eq_conv_conj)
  then show "drop (n + 10) out = drop (n + 5) input"
    by (simp add: pl_def add.commute)
qed

lemma spec_split_append:
  assumes "length_field input + 5 \<le> length input" and "off \<le> length_field input"
  shows "spec_split off (input @ rest) = spec_split off input @ rest"
proof -
  have "length_field (input @ rest) = length_field input"
    using assms by (simp add: length_field_def nth_append)
  then show ?thesis
    using assms by (simp add: spec_split_def Let_def)
qed

section \<open>The cases of a \<open>Write\<close> that returns\<close>

lemma Write_Some_cases:
  fixes w :: tlsRecordFragWriter and data :: "byte list"
  defines "off \<equiv> nat (sint (prefixBytes w))"
  defines "n \<equiv> length_field data"
  assumes W: "Write w data = Some x" and L: "int (length data) < 2 ^ 31"
  shows "(\<not> 0 < sint (prefixBytes w) \<and> x = forward w data)
         \<or> (0 < sint (prefixBytes w) \<and> x = forward (w\<lparr>prefixBytes := 0\<rparr>) data)
         \<or> (0 < sint (prefixBytes w) \<and> off + 5 < length data \<and> data ! 0 = 22
              \<and> off < n \<and> n + 5 \<le> length data \<and> n \<le> 16384
              \<and> x = write_fragmented w (spec_split off data))"
proof (cases "0 < sint (prefixBytes w)")
  case False
  with W Write_disarmed [OF False, of data] show ?thesis by simp
next
  case armed: True
  show ?thesis
  proof (cases "int (length data) + 5 < 2 ^ 31 \<and> sint (prefixBytes w) + 5 < 2 ^ 31")
    case False
    then have "x = forward (w\<lparr>prefixBytes := 0\<rparr>) data"
      using Write_large_buffer [OF W armed _ L] Write_huge_offset [OF W armed]
      by (cases "int (length data) + 5 < 2 ^ 31") auto
    with armed show ?thesis by simp
  next
    case True
    then have b: "sint (prefixBytes w) + 5 < 2 ^ 31" "int (length data) + 5 < 2 ^ 31"
      by simp_all
    note nf = Write_armed [OF armed b, of, folded off_def n_def]
    show ?thesis
    proof (cases "length data \<le> off + 5 \<or> data ! 0 \<noteq> 22 \<or> length data - 5 < n \<or> off = n
               \<or> 16384 < n")
      case True
      with nf W have "x = forward (w\<lparr>prefixBytes := 0\<rparr>) data" by simp
      with armed show ?thesis by simp
    next
      case False
      with nf W have "\<not> n < off" and "x = write_fragmented w (spec_split off data)"
        by (auto split: if_splits)
      with False armed show ?thesis by auto
    qed
  qed
qed

section \<open>The paths of \<open>ReadFrom\<close>\<close>

lemma ReadFrom_disarmed:
  assumes "\<not> 0 < sint (prefixBytes w)"
  shows "ReadFrom w src = Some (copy_rest 0 w src)"
  using assms by (simp add: ReadFrom_def word_sless_alt)

lemma ReadFrom_header_error:
  assumes "0 < sint (prefixBytes w)" and "io_ReadFull src 5 = (hdr, Some e, src1)"
  shows "ReadFrom w src = Some ((0, Some e), w, src1)"
  by (simp add: ReadFrom_armed [OF assms(1)] assms(2))

lemma ReadFrom_passthrough:
  assumes "0 < sint (prefixBytes w)" and "io_ReadFull src 5 = (hdr, None, src1)"
    and "hdr ! 0 \<noteq> 22 \<or> length_field hdr \<le> nat (sint (prefixBytes w))
         \<or> 16384 < length_field hdr"
  shows "ReadFrom w src = Some (dontFrag w hdr src1)"
  using assms(3) by (simp add: ReadFrom_armed [OF assms(1)] assms(2))

lemma ReadFrom_payload1_error:
  assumes "0 < sint (prefixBytes w)" and "io_ReadFull src 5 = (hdr, None, src1)"
    and "hdr ! 0 = 22" and "nat (sint (prefixBytes w)) < length_field hdr"
    and "length_field hdr \<le> 16384"
    and "io_ReadFull src1 (nat (sint (prefixBytes w))) = (bytes1, Some e, src2)"
  shows "ReadFrom w src = Some ((0, Some e), w\<lparr>prefixBytes := 0\<rparr>, src2)"
  using assms(3-5) by (simp add: ReadFrom_armed [OF assms(1)] assms(2,6))

lemma ReadFrom_payload2_error:
  assumes "0 < sint (prefixBytes w)" and "io_ReadFull src 5 = (hdr, None, src1)"
    and "hdr ! 0 = 22" and "nat (sint (prefixBytes w)) < length_field hdr"
    and "length_field hdr \<le> 16384"
    and "io_ReadFull src1 (nat (sint (prefixBytes w))) = (bytes1, None, src2)"
    and "io_ReadFull src2 (length_field hdr - nat (sint (prefixBytes w))) = (bytes2, Some e, src3)"
  shows "ReadFrom w src = Some ((0, Some e), w\<lparr>prefixBytes := 0\<rparr>, src3)"
  using assms(3-5) by (simp add: ReadFrom_armed [OF assms(1)] assms(2,6,7))

lemma ReadFrom_split:
  assumes "0 < sint (prefixBytes w)" and "io_ReadFull src 5 = (hdr, None, src1)"
    and "hdr ! 0 = 22" and "nat (sint (prefixBytes w)) < length_field hdr"
    and "length_field hdr \<le> 16384"
    and "io_ReadFull src1 (nat (sint (prefixBytes w))) = (bytes1, None, src2)"
    and "io_ReadFull src2 (length_field hdr - nat (sint (prefixBytes w))) = (bytes2, None, src3)"
    and "sink_Write (writer w) (spec_split (nat (sint (prefixBytes w))) (hdr @ bytes1 @ bytes2))
         = ((tmp, err), s)"
  shows "ReadFrom w src =
           Some (if err \<noteq> None
                 then ((if 5 \<le> tmp then tmp - 5 else tmp, err),
                       w\<lparr>writer := s, prefixBytes := 0\<rparr>, src3)
                 else copy_rest (if 5 \<le> tmp then tmp - 5 else tmp)
                        (w\<lparr>writer := s, prefixBytes := 0\<rparr>) src3)"
  using assms(3-5) by (simp add: ReadFrom_armed [OF assms(1)] assms(2,6,7,8) Let_def)

lemma ReadFrom_total: "\<exists>r. ReadFrom w src = Some r"
proof (cases "0 < sint (prefixBytes w)")
  case True
  from ReadFrom_armed [OF True] show ?thesis by blast
next
  case False
  from ReadFrom_disarmed [OF False] show ?thesis by blast
qed

section \<open>What a call reads from its source\<close>

lemma copy_loop_consumed:
  "\<exists>new. received (fst (snd (copy_loop dst cs fin wr))) = received dst @ new
         \<and> concat cs = concat new @ concat (snd (snd (copy_loop dst cs fin wr)))"
proof (induction "chunk_measure cs" arbitrary: dst cs wr rule: less_induct)
  case less
  show ?case
  proof (cases cs)
    case Nil
    then show ?thesis by (simp add: copy_loop_Nil)
  next
    case (Cons c cs')
    define p where "p = take copy_buffer_size c"
    define rest where
      "rest = (if length c \<le> copy_buffer_size then cs' else drop copy_buffer_size c # cs')"
    define dst' where "dst' = dst\<lparr>received := received dst @ [p]\<rparr>"
    have cc: "concat cs = p @ concat rest"
      by (simp add: Cons p_def rest_def)
    have m: "chunk_measure rest < chunk_measure cs"
      unfolding rest_def Cons by (rule chunk_measure_rest)
    define nw0 ew0 where nw0: "nw0 = fst (behaviour dst (received dst) p)"
      and ew0: "ew0 = snd (behaviour dst (received dst) p)"
    define nw where "nw = (if nw0 < 0 \<or> int (length p) < nw0 then 0 else nw0)"
    define ew where "ew = (if nw0 < 0 \<or> int (length p) < nw0
                  then (if ew0 = None then Some errInvalidWrite else ew0) else ew0)"
    note step = copy_loop_step [of dst c cs' fin wr,
        folded p_def rest_def dst'_def, folded nw0 ew0, folded nw_def ew_def]
    have "p = [] \<or> (\<exists>e. ew = Some e) \<or> (ew = None \<and> int (length p) \<noteq> nw)
          \<or> (p \<noteq> [] \<and> ew = None \<and> int (length p) = nw)"
      by auto
    then consider (empty) "p = []" "copy_loop dst cs fin wr = copy_loop dst rest fin wr"
      | (stop) e n where "p \<noteq> []" "copy_loop dst cs fin wr = ((n, Some e), dst', rest)"
      | (go) n where "p \<noteq> []" "copy_loop dst cs fin wr = copy_loop dst' rest fin n"
      unfolding Cons step by (cases "p = []") (auto simp: dst'_def)
    then show ?thesis
    proof cases
      case empty
      from less [OF m, of dst wr] empty cc show ?thesis by simp
    next
      case stop
      then show ?thesis
        using cc by (auto simp: dst'_def)
    next
      case go
      from less [OF m, of dst' n]
      obtain new where
        n: "received (fst (snd (copy_loop dst' rest fin n))) = received dst' @ new"
           "concat rest = concat new @ concat (snd (snd (copy_loop dst' rest fin n)))"
        by (elim exE conjE) (rule that)
      show ?thesis
        unfolding go(2) cc
        using n by (intro exI [of _ "p # new"]) (auto simp: dst'_def)
    qed
  qed
qed

lemma copy_loop_nil_rest:
  "snd (fst (copy_loop dst cs fin wr)) = None \<Longrightarrow> snd (snd (copy_loop dst cs fin wr)) = []"
proof (induction "chunk_measure cs" arbitrary: dst cs wr rule: less_induct)
  case less
  show ?case
  proof (cases cs)
    case Nil
    then show ?thesis by (simp add: copy_loop_Nil)
  next
    case (Cons c cs')
    define p where "p = take copy_buffer_size c"
    define rest where
      "rest = (if length c \<le> copy_buffer_size then cs' else drop copy_buffer_size c # cs')"
    define dst' where "dst' = dst\<lparr>received := received dst @ [p]\<rparr>"
    have m: "chunk_measure rest < chunk_measure cs"
      unfolding rest_def Cons by (rule chunk_measure_rest)
    define nw0 ew0 where nw0: "nw0 = fst (behaviour dst (received dst) p)"
      and ew0: "ew0 = snd (behaviour dst (received dst) p)"
    define nw where "nw = (if nw0 < 0 \<or> int (length p) < nw0 then 0 else nw0)"
    define ew where "ew = (if nw0 < 0 \<or> int (length p) < nw0
                  then (if ew0 = None then Some errInvalidWrite else ew0) else ew0)"
    note step = copy_loop_step [of dst c cs' fin wr,
        folded p_def rest_def dst'_def, folded nw0 ew0, folded nw_def ew_def]
    have "p = [] \<or> (\<exists>e. ew = Some e) \<or> (ew = None \<and> int (length p) \<noteq> nw)
          \<or> (p \<noteq> [] \<and> ew = None \<and> int (length p) = nw)"
      by auto
    then consider (empty) "p = []" "copy_loop dst cs fin wr = copy_loop dst rest fin wr"
      | (stop) e n where "p \<noteq> []" "copy_loop dst cs fin wr = ((n, Some e), dst', rest)"
      | (go) n where "p \<noteq> []" "copy_loop dst cs fin wr = copy_loop dst' rest fin n"
      unfolding Cons step by (cases "p = []") (auto simp: dst'_def)
    then show ?thesis
    proof cases
      case empty
      from less(1) [OF m, of dst wr] less(2) empty show ?thesis by simp
    next
      case stop
      with less(2) show ?thesis by simp
    next
      case go
      from less(1) [OF m, of dst' n] less(2) go show ?thesis by simp
    qed
  qed
qed

lemma copy_rest_nil:
  assumes "copy_rest k w src = ((k', None), w', src')"
  shows "chunks src' = []"
  using assms copy_loop_nil_rest [of "writer w" "chunks src" "final src" 0]
  by (auto simp: copy_rest_def io_Copy_def case_prod_beta)

lemma dontFrag_nil:
  assumes "dontFrag w first src = ((k, None), w', src')"
  shows "chunks src' = []"
proof -
  define w1 where "w1 = w\<lparr>writer := snd (sink_Write (writer w) first), prefixBytes := 0\<rparr>"
  define tmp where "tmp = fst (fst (sink_Write (writer w) first))"
  define e where "e = snd (fst (sink_Write (writer w) first))"
  have d: "dontFrag w first src =
             (if e \<noteq> None then ((tmp, e), w1, src) else copy_rest tmp w1 src)"
    by (simp add: dontFrag_def w1_def tmp_def e_def case_prod_beta Let_def)
  show ?thesis
  proof (cases "e \<noteq> None")
    case True
    with assms d show ?thesis by simp
  next
    case False
    with assms d have "copy_rest tmp w1 src = ((k, None), w', src')" by simp
    then show ?thesis by (rule copy_rest_nil)
  qed
qed

lemma consumed_eq:
  assumes "concat (chunks src) = c @ concat (chunks src')"
  shows "consumed src src' = c"
  using assms by (simp add: consumed_def)

lemma copy_rest_consumed:
  assumes "copy_rest k w src = (r, w', src')"
  shows "\<exists>new. received (writer w') = received (writer w) @ new
           \<and> concat (chunks src) = concat new @ concat (chunks src')"
proof -
  from copy_loop_consumed [of "writer w" "chunks src" "final src" 0]
  obtain new where
    n: "received (fst (snd (copy_loop (writer w) (chunks src) (final src) 0)))
        = received (writer w) @ new"
       "concat (chunks src)
        = concat new @ concat (snd (snd (copy_loop (writer w) (chunks src) (final src) 0)))"
    by blast
  from assms have
    "w' = w\<lparr>writer := fst (snd (copy_loop (writer w) (chunks src) (final src) 0))\<rparr>"
    "src' = src\<lparr>chunks := snd (snd (copy_loop (writer w) (chunks src) (final src) 0))\<rparr>"
    by (auto simp: copy_rest_def io_Copy_def case_prod_beta)
  with n show ?thesis by auto
qed

lemma dontFrag_consumed:
  assumes "dontFrag w first src = (r, w', src')"
  shows "\<exists>new. received (writer w') = received (writer w) @ first # new
           \<and> concat (chunks src) = concat new @ concat (chunks src')"
proof -
  define w1 where "w1 = w\<lparr>writer := snd (sink_Write (writer w) first), prefixBytes := 0\<rparr>"
  define tmp where "tmp = fst (fst (sink_Write (writer w) first))"
  define e where "e = snd (fst (sink_Write (writer w) first))"
  have r1: "received (writer w1) = received (writer w) @ [first]"
    by (simp add: w1_def sink_Write_def)
  have d: "dontFrag w first src =
             (if e \<noteq> None then ((tmp, e), w1, src) else copy_rest tmp w1 src)"
    by (simp add: dontFrag_def w1_def tmp_def e_def case_prod_beta Let_def)
  show ?thesis
  proof (cases "e \<noteq> None")
    case True
    with assms d have "w' = w1" "src' = src" by simp_all
    with r1 show ?thesis
      by (intro exI [of _ "[]"]) simp
  next
    case False
    with assms d have "copy_rest tmp w1 src = (r, w', src')" by simp
    from copy_rest_consumed [OF this] r1 show ?thesis by auto
  qed
qed

lemma io_ReadFull_enough:
  assumes "io_ReadFull src n = (bs, err, src')"
  shows "err = None \<longleftrightarrow> n \<le> length (concat (chunks src))"
proof -
  note c = io_ReadFull_content [OF assms]
  show ?thesis
  proof (cases "err = None")
    case True
    with c(1,3) show ?thesis by simp
  next
    case False
    from c(4) [OF False] c(1) False show ?thesis by simp
  qed
qed

section \<open>Sources that end inside the first record\<close>

lemma ReadFrom_dropped:
  fixes w :: tlsRecordFragWriter and src :: source
  defines "off \<equiv> nat (sint (prefixBytes w))"
  assumes p: "0 < sint (prefixBytes w)"
    and short: "ends_inside_record off (concat (chunks src))"
  shows "\<exists>e w1 src'. ReadFrom w src = Some ((0, Some e), w1, src')
           \<and> writer w1 = writer w \<and> chunks src' = []"
proof -
  obtain hdr err src1 where rf: "io_ReadFull src 5 = (hdr, err, src1)"
    by (cases "io_ReadFull src 5")
  note c = io_ReadFull_content [OF rf]
  show ?thesis
  proof (cases "err = None")
    case False
    then obtain e where e: "err = Some e" by auto
    from ReadFrom_header_error [OF p rf [unfolded e]] c(4) [OF False]
    show ?thesis by simp
  next
    case True
    note rf = rf [unfolded True]
    from True c(3) have lh: "length hdr = 5" by simp
    with c(1) have len5: "5 \<le> length (concat (chunks src))" by simp
    have h0: "concat (chunks src) ! 0 = hdr ! 0"
      and lf: "length_field (concat (chunks src)) = length_field hdr"
      using lh by (simp_all add: c(1) length_field_def nth_append)
    from short len5 have ty: "hdr ! 0 = 22" and n2: "off < length_field hdr"
      and n3: "length_field hdr \<le> 16384"
      and cut: "length (concat (chunks src)) < length_field hdr + 5"
      by (simp_all add: ends_inside_record_def h0 lf)
    have l1: "length (concat (chunks src1)) = length (concat (chunks src)) - 5"
      using lh by (simp add: c(1))
    obtain bytes1 err1 src2 where rf1: "io_ReadFull src1 off = (bytes1, err1, src2)"
      by (cases "io_ReadFull src1 off")
    note c1 = io_ReadFull_content [OF rf1]
    show ?thesis
    proof (cases "err1 = None")
      case False
      then obtain e where e: "err1 = Some e" by auto
      from ReadFrom_payload1_error [OF p rf ty n2 [unfolded off_def] n3
          rf1 [unfolded e off_def]] c1(4) [OF False]
      show ?thesis by simp
    next
      case True
      note rf1 = rf1 [unfolded True]
      from True c1(3) have lb: "length bytes1 = off" by simp
      have l2: "length (concat (chunks src2)) = length (concat (chunks src)) - 5 - off"
        using lb l1 by (simp add: c1(1))
      obtain bytes2 err2 src3 where
        rf2: "io_ReadFull src2 (length_field hdr - off) = (bytes2, err2, src3)"
        by (cases "io_ReadFull src2 (length_field hdr - off)")
      note c2 = io_ReadFull_content [OF rf2]
      from io_ReadFull_enough [OF rf2] l2 cut n2 have "err2 \<noteq> None"
        by simp
      then obtain e where e: "err2 = Some e" by auto
      from ReadFrom_payload2_error [OF p rf ty n2 [unfolded off_def] n3
          rf1 [unfolded off_def] rf2 [unfolded e off_def]] c2(4) [OF \<open>err2 \<noteq> None\<close>]
      show ?thesis by simp
    qed
  qed
qed

lemma ReadFrom_kept:
  fixes w :: tlsRecordFragWriter and src :: source
  defines "off \<equiv> nat (sint (prefixBytes w))"
  assumes R: "ReadFrom w src = Some (r, w', src')"
    and ok: "\<not> 0 < sint (prefixBytes w) \<or> \<not> ends_inside_record off (concat (chunks src))"
  shows "\<exists>new. received (writer w') = received (writer w) @ new
           \<and> (concat new = consumed src src'
               \<or> (off < length_field (consumed src src')
                   \<and> length_field (consumed src src') + 5 \<le> length (consumed src src')
                   \<and> concat new = spec_split off (consumed src src')))"
    and "\<not> 0 < sint (prefixBytes w')"
proof -
  obtain k e where r: "r = (k, e)" by (cases r)
  have "(\<exists>new. received (writer w') = received (writer w) @ new
           \<and> (concat new = consumed src src'
               \<or> (off < length_field (consumed src src')
                   \<and> length_field (consumed src src') + 5 \<le> length (consumed src src')
                   \<and> concat new = spec_split off (consumed src src'))))
        \<and> \<not> 0 < sint (prefixBytes w')"
  proof (cases "0 < sint (prefixBytes w)")
    case False
    from R ReadFrom_disarmed [OF False, of src]
    have cr: "copy_rest 0 w src = ((k, e), w', src')" by (simp add: r)
    from copy_rest_consumed [OF cr]
    obtain new where n: "received (writer w') = received (writer w) @ new"
      "concat (chunks src) = concat new @ concat (chunks src')" by blast
    from consumed_eq [OF n(2)] n(1) copy_rest_log(1) [OF cr] False
    show ?thesis by auto
  next
    case armed: True
    with ok have long: "\<not> ends_inside_record off (concat (chunks src))" by simp
    then have len5: "5 \<le> length (concat (chunks src))"
      by (simp add: ends_inside_record_def)
    obtain hdr err src1 where rf: "io_ReadFull src 5 = (hdr, err, src1)"
      by (cases "io_ReadFull src 5")
    from io_ReadFull_enough [OF rf] len5 have "err = None" by simp
    note rf = rf [unfolded this]
    note c = io_ReadFull_content [OF rf]
    from c(3) have lh: "length hdr = 5" by simp
    have h0: "concat (chunks src) ! 0 = hdr ! 0"
      and lf: "length_field (concat (chunks src)) = length_field hdr"
      using lh by (simp_all add: c(1) length_field_def nth_append)
    have l1: "length (concat (chunks src1)) = length (concat (chunks src)) - 5"
      using lh by (simp add: c(1))
    show ?thesis
    proof (cases "hdr ! 0 \<noteq> 22 \<or> length_field hdr \<le> off \<or> 16384 < length_field hdr")
      case True
      from ReadFrom_passthrough [OF armed rf True [unfolded off_def]] R
      have d: "dontFrag w hdr src1 = ((k, e), w', src')" by (simp add: r)
      from dontFrag_consumed [OF d]
      obtain new where n: "received (writer w') = received (writer w) @ hdr # new"
        "concat (chunks src1) = concat new @ concat (chunks src')" by blast
      have "concat (chunks src) = concat (hdr # new) @ concat (chunks src')"
        by (simp add: c(1) n(2))
      from consumed_eq [OF this] n(1) dontFrag_log(1) [OF d]
      show ?thesis by auto
    next
      case False
      then have ty: "hdr ! 0 = 22" and n2: "off < length_field hdr"
        and n3: "length_field hdr \<le> 16384" by simp_all
      from long len5 ty n2 n3
      have whole: "length_field hdr + 5 \<le> length (concat (chunks src))"
        by (simp add: ends_inside_record_def h0 lf)
      obtain bytes1 err1 src2 where rf1: "io_ReadFull src1 off = (bytes1, err1, src2)"
        by (cases "io_ReadFull src1 off")
      from io_ReadFull_enough [OF rf1] l1 whole n2 have "err1 = None" by simp
      note rf1 = rf1 [unfolded this]
      note c1 = io_ReadFull_content [OF rf1]
      from c1(3) have lb1: "length bytes1 = off" by simp
      have l2: "length (concat (chunks src2)) = length (concat (chunks src)) - 5 - off"
        using lb1 l1 by (simp add: c1(1))
      obtain bytes2 err2 src3 where
        rf2: "io_ReadFull src2 (length_field hdr - off) = (bytes2, err2, src3)"
        by (cases "io_ReadFull src2 (length_field hdr - off)")
      from io_ReadFull_enough [OF rf2] l2 whole n2 have "err2 = None" by simp
      note rf2 = rf2 [unfolded this]
      note c2 = io_ReadFull_content [OF rf2]
      from c2(3) have lb2: "length bytes2 = length_field hdr - off" by simp
      define whole_rec where "whole_rec = hdr @ bytes1 @ bytes2"
      have cw: "concat (chunks src) = whole_rec @ concat (chunks src3)"
        by (simp add: c(1) c1(1) c2(1) whole_rec_def)
      have lfr: "length_field whole_rec = length_field hdr"
        using lh by (simp add: whole_rec_def length_field_def nth_append)
      have lr: "length_field whole_rec + 5 \<le> length whole_rec"
        unfolding lfr using lh lb1 lb2 n2 by (simp add: whole_rec_def)
      have lw5: "5 \<le> length whole_rec"
        using lh by (simp add: whole_rec_def)
      define buf where "buf = spec_split off whole_rec"
      obtain tmp es s where sw: "sink_Write (writer w) buf = ((tmp, es), s)"
        by (metis surj_pair)
      have s: "received s = received (writer w) @ [buf]"
        using sw by (auto simp: sink_Write_def)
      note split = ReadFrom_split [OF armed rf ty n2 [unfolded off_def] n3 rf1 [unfolded off_def]
          rf2 [unfolded off_def] sw [unfolded buf_def whole_rec_def off_def]]
      have "\<exists>new. received (writer w') = received (writer w) @ buf # new
              \<and> concat (chunks src3) = concat new @ concat (chunks src')
              \<and> prefixBytes w' = 0"
      proof (cases "es = None")
        case False
        with split R have "w' = w\<lparr>writer := s, prefixBytes := 0\<rparr>" "src' = src3"
          by (simp_all add: r)
        with s show ?thesis
          by (intro exI [of _ "[]"]) simp
      next
        case True
        with split R have cr:
          "copy_rest (if 5 \<le> tmp then tmp - 5 else tmp) (w\<lparr>writer := s, prefixBytes := 0\<rparr>) src3
           = ((k, e), w', src')"
          by (simp add: r)
        from copy_rest_consumed [OF cr] copy_rest_log(1) [OF cr] s
        show ?thesis by auto
      qed
      then obtain new where
        n: "received (writer w') = received (writer w) @ buf # new"
           "concat (chunks src3) = concat new @ concat (chunks src')"
           "prefixBytes w' = 0"
        by blast
      have "concat (chunks src) = (whole_rec @ concat new) @ concat (chunks src')"
        by (simp add: cw n(2))
      from consumed_eq [OF this] have ce: "consumed src src' = whole_rec @ concat new" .
      have lfc: "length_field (whole_rec @ concat new) = length_field hdr"
        using lw5 lfr by (simp add: length_field_def nth_append)
      have "concat (buf # new) = spec_split off (whole_rec @ concat new)"
        using spec_split_append [OF lr, of off "concat new"] n2
        by (simp add: buf_def lfr)
      moreover have "off < length_field (whole_rec @ concat new)"
        using n2 by (simp add: lfc)
      moreover have "length_field (whole_rec @ concat new) + 5 \<le> length (whole_rec @ concat new)"
        using lr by (simp add: lfc lfr)
      ultimately show ?thesis
        unfolding ce using n(1,3) by (intro conjI exI [of _ "buf # new"]) simp_all
    qed
  qed
  then show "\<exists>new. received (writer w') = received (writer w) @ new
           \<and> (concat new = consumed src src'
               \<or> (off < length_field (consumed src src')
                   \<and> length_field (consumed src src') + 5 \<le> length (consumed src src')
                   \<and> concat new = spec_split off (consumed src src')))"
    and "\<not> 0 < sint (prefixBytes w')"
    by simp_all
qed

lemma ReadFrom_nil_exhausts:
  assumes R: "ReadFrom w src = Some ((k, None), w', src')"
  shows "chunks src' = []"
proof (cases "0 < sint (prefixBytes w)")
  case False
  from R ReadFrom_disarmed [OF False, of src]
  have "copy_rest 0 w src = ((k, None), w', src')" by simp
  then show ?thesis by (rule copy_rest_nil)
next
  case armed: True
  obtain hdr err src1 where rf: "io_ReadFull src 5 = (hdr, err, src1)"
    by (cases "io_ReadFull src 5")
  have "err = None"
  proof (rule ccontr)
    assume "err \<noteq> None"
    then obtain e where "err = Some e" by auto
    with ReadFrom_header_error [OF armed, of src hdr e src1] rf R show False by simp
  qed
  note rf = rf [unfolded this]
  show ?thesis
  proof (cases "hdr ! 0 \<noteq> 22 \<or> length_field hdr \<le> nat (sint (prefixBytes w))
                \<or> 16384 < length_field hdr")
    case True
    from ReadFrom_passthrough [OF armed rf True] R
    have "dontFrag w hdr src1 = ((k, None), w', src')" by simp
    then show ?thesis by (rule dontFrag_nil)
  next
    case False
    then have ty: "hdr ! 0 = 22" and n2: "nat (sint (prefixBytes w)) < length_field hdr"
      and n3: "length_field hdr \<le> 16384" by simp_all
    obtain bytes1 err1 src2 where
      rf1: "io_ReadFull src1 (nat (sint (prefixBytes w))) = (bytes1, err1, src2)"
      by (cases "io_ReadFull src1 (nat (sint (prefixBytes w)))")
    have "err1 = None"
    proof (rule ccontr)
      assume "err1 \<noteq> None"
      then obtain e where "err1 = Some e" by auto
      with ReadFrom_payload1_error [OF armed rf ty n2 n3, of bytes1 e src2] rf1 R
      show False by simp
    qed
    note rf1 = rf1 [unfolded this]
    obtain bytes2 err2 src3 where
      rf2: "io_ReadFull src2 (length_field hdr - nat (sint (prefixBytes w)))
            = (bytes2, err2, src3)"
      by (cases "io_ReadFull src2 (length_field hdr - nat (sint (prefixBytes w)))")
    have "err2 = None"
    proof (rule ccontr)
      assume "err2 \<noteq> None"
      then obtain e where "err2 = Some e" by auto
      with ReadFrom_payload2_error [OF armed rf ty n2 n3 rf1, of bytes2 e src3] rf2 R
      show False by simp
    qed
    note rf2 = rf2 [unfolded this]
    obtain tmp es s where
      sw: "sink_Write (writer w)
             (spec_split (nat (sint (prefixBytes w))) (hdr @ bytes1 @ bytes2)) = ((tmp, es), s)"
      by (metis surj_pair)
    note split = ReadFrom_split [OF armed rf ty n2 n3 rf1 rf2 sw]
    from split R have "es = None"
      by (auto split: if_splits)
    with split R have
      "copy_rest (if 5 \<le> tmp then tmp - 5 else tmp) (w\<lparr>writer := s, prefixBytes := 0\<rparr>) src3
       = ((k, None), w', src')"
      by simp
    then show ?thesis by (rule copy_rest_nil)
  qed
qed

section \<open>Long buffers\<close>

lemma Write_returns_disarmed:
  assumes "Write w data = Some (r, w')"
  shows "\<not> 0 < sint (prefixBytes w')"
    and "0 \<le> sint (prefixBytes w) \<Longrightarrow> prefixBytes w' = 0"
proof -
  have "(0 < sint (prefixBytes w) \<longrightarrow> prefixBytes w' = 0)
        \<and> (\<not> 0 < sint (prefixBytes w) \<longrightarrow> prefixBytes w' = prefixBytes w)"
  proof (cases "0 < sint (prefixBytes w)")
    case True
    from Write_armed_Some [OF assms True]
    have "prefixBytes w' = 0"
    proof
      assume "(r, w') = forward (w\<lparr>prefixBytes := 0\<rparr>) data"
      from forward_log(3) [OF this [symmetric]] show ?thesis by simp
    next
      assume "\<exists>buf remainder rl hm.
               slice_from data 5 = Some remainder
               \<and> fragment (prefixBytes w) data remainder (of_nat (length data)) rl hm = Some buf
               \<and> (r, w') = write_fragmented w buf"
      then obtain buf where "(r, w') = write_fragmented w buf" by blast
      from write_fragmented_log(3) [OF this [symmetric]] show ?thesis .
    qed
    with True show ?thesis by simp
  next
    case False
    with assms Write_disarmed [OF False, of data] have "(r, w') = forward w data" by simp
    from forward_log(3) [OF this [symmetric]] False show ?thesis by simp
  qed
  then show "\<not> 0 < sint (prefixBytes w')"
    by (cases "0 < sint (prefixBytes w)") simp_all
  assume "0 \<le> sint (prefixBytes w)"
  with \<open>(0 < sint (prefixBytes w) \<longrightarrow> prefixBytes w' = 0)
        \<and> (\<not> 0 < sint (prefixBytes w) \<longrightarrow> prefixBytes w' = prefixBytes w)\<close>
  show "prefixBytes w' = 0"
    by (cases "0 < sint (prefixBytes w)") (auto simp: order_le_less signed_eq_0_iff)
qed

lemma copy_at_length:
  assumes "copy_at buf off src = Some b"
  shows "length b = length buf"
  using assms by (auto simp: copy_at_def Let_def min_def split: if_splits)

lemma fragment_Some_header:
  assumes "fragment pb data remainder len rl hm = Some buf"
  shows "5 \<le> sint (len + 5)"
proof -
  from assms obtain b0 h b1 b2 where
    m: "make_bytes (sint (len + 5)) = Some b0"
    and c: "copy_at b0 0 h = Some b1"
    and u: "PutUint16_at b1 3 (ucast pb) = Some b2"
    unfolding fragment_def by (auto simp: bind_eq_Some_conv)
  from m have "0 \<le> sint (len + 5)" "length b0 = nat (sint (len + 5))"
    by (auto simp: make_bytes_def split: if_splits)
  moreover from copy_at_length [OF c] have "length b1 = length b0" .
  moreover from u have "5 \<le> length b1"
    by (auto simp: PutUint16_at_def split: if_splits)
  ultimately show ?thesis by simp
qed

lemma sint_int32_of_nat_high:
  assumes "2 ^ 31 \<le> n" and "n < 2 ^ 32"
  shows "sint (of_nat n + 5 :: int32) < 5"
proof -
  have s: "sint (of_nat n :: int32) = signed_take_bit 31 (int n)"
    by (simp add: signed_of_nat)
  have "(2 :: int) ^ 31 \<le> int n"
    using assms(1) by (metis of_nat_le_iff of_nat_numeral of_nat_power)
  then have "signed_take_bit 31 (int n) \<le> int n - 2 ^ Suc 31"
    by (rule signed_take_bit_int_less_eq)
  then have a: "signed_take_bit 31 (int n) \<le> int n - 4294967296"
    by simp
  have "int n < 2 ^ 32"
    using assms(2) by (metis of_nat_less_iff of_nat_numeral of_nat_power)
  then have b: "int n < 4294967296"
    by simp
  from a b have "signed_take_bit 31 (int n) < 0"
    by linarith
  then have neg: "sint (of_nat n :: int32) < 0"
    by (simp only: s)
  have lo: "- (2 ^ 31) \<le> sint (of_nat n :: int32)"
    using sint_ge [of "of_nat n :: int32"] by simp
  have "sint (of_nat n + 5 :: int32) = sint (of_nat n :: int32) + sint (5 :: int32)"
    using neg lo by (intro sint_int32_add) simp_all
  with neg show ?thesis by simp
qed

lemma Write_long_buffer:
  assumes W: "Write w data = Some x" and p: "0 < sint (prefixBytes w)"
    and lo: "2 ^ 31 \<le> length data" and hi: "length data < 2 ^ 32"
  shows "x = forward (w\<lparr>prefixBytes := 0\<rparr>) data"
proof -
  from Write_armed_Some [OF W p]
  show ?thesis
  proof
    assume "\<exists>buf remainder rl hm.
               slice_from data 5 = Some remainder
               \<and> fragment (prefixBytes w) data remainder (of_nat (length data)) rl hm = Some buf
               \<and> x = write_fragmented w buf"
    then obtain buf remainder rl hm where
      f: "fragment (prefixBytes w) data remainder (of_nat (length data)) rl hm = Some buf"
      by blast
    from fragment_Some_header [OF f] sint_int32_of_nat_high [OF lo hi]
    have False by simp
    then show ?thesis ..
  qed
qed

lemma Write_kept:
  fixes w :: tlsRecordFragWriter and data :: "byte list"
  defines "off \<equiv> nat (sint (prefixBytes w))"
  assumes W: "Write w data = Some (r, w')"
    and L: "\<not> 0 < sint (prefixBytes w) \<or> int (length data) < 2 ^ 32"
  shows "\<exists>out. received (writer w') = received (writer w) @ [out]
           \<and> (out = data
               \<or> (off < length_field data \<and> length_field data + 5 \<le> length data
                   \<and> out = spec_split off data))"
    and "\<not> 0 < sint (prefixBytes w')"
proof -
  have "(r, w') = forward w data \<or> (r, w') = forward (w\<lparr>prefixBytes := 0\<rparr>) data
        \<or> (off < length_field data \<and> length_field data + 5 \<le> length data
            \<and> (r, w') = write_fragmented w (spec_split off data))"
  proof (cases "int (length data) < 2 ^ 31")
    case True
    from Write_Some_cases [OF W True] show ?thesis
      unfolding off_def by blast
  next
    case False
    then have lo: "2 ^ 31 \<le> length data"
      by (metis not_less of_nat_le_iff of_nat_numeral of_nat_power)
    show ?thesis
    proof (cases "0 < sint (prefixBytes w)")
      case armed: True
      with L have "int (length data) < 2 ^ 32" by simp
      then have hi: "length data < 2 ^ 32"
        by (metis of_nat_less_iff of_nat_numeral of_nat_power)
      from Write_long_buffer [OF W armed lo hi] show ?thesis by simp
    next
      case False
      with W Write_disarmed [OF False, of data] show ?thesis by simp
    qed
  qed
  then consider (plain) "(r, w') = forward w data"
    | (disarm) "(r, w') = forward (w\<lparr>prefixBytes := 0\<rparr>) data"
    | (split) "off < length_field data" "length_field data + 5 \<le> length data"
        "(r, w') = write_fragmented w (spec_split off data)"
    by blast
  then show "\<exists>out. received (writer w') = received (writer w) @ [out]
           \<and> (out = data
               \<or> (off < length_field data \<and> length_field data + 5 \<le> length data
                   \<and> out = spec_split off data))"
  proof cases
    case plain
    from forward_log(1) [OF plain [symmetric]] show ?thesis by simp
  next
    case disarm
    from forward_log(1) [OF disarm [symmetric]] show ?thesis by simp
  next
    case split
    from write_fragmented_log(1) [OF split(3) [symmetric]] split(1,2)
    show ?thesis by simp
  qed
  show "\<not> 0 < sint (prefixBytes w')"
    by (rule Write_returns_disarmed(1) [OF W])
qed

section \<open>Runs of calls\<close>

lemma content_preserved_same: "content_preserved off input input"
  by (simp add: content_preserved_def)

lemma content_preserved_split:
  assumes "off < length_field input" and "length_field input + 5 \<le> length input"
  shows "content_preserved off input (spec_split off input)"
proof -
  note f = spec_split_facts [OF assms]
  have "length_field (spec_split off input)
          + length_field (drop (off + 5) (spec_split off input)) = length_field input"
    using f(4,5) assms(1) by simp
  with f(1,2,3,6) show ?thesis
    by (simp add: content_preserved_def)
qed

lemma content_preserved_kept:
  assumes "out = input
           \<or> (off < length_field input \<and> length_field input + 5 \<le> length input
               \<and> out = spec_split off input)"
  shows "content_preserved off (input @ tail) (out @ tail)"
  using assms
proof
  assume "out = input"
  then show ?thesis by (simp add: content_preserved_same)
next
  assume a: "off < length_field input \<and> length_field input + 5 \<le> length input
             \<and> out = spec_split off input"
  then have lf: "length_field (input @ tail) = length_field input"
    by (simp add: length_field_def nth_append)
  from a have "out @ tail = spec_split off (input @ tail)"
    using spec_split_append [of input off tail] by simp
  moreover have "content_preserved off (input @ tail) (spec_split off (input @ tail))"
    using a by (intro content_preserved_split) (simp_all add: lf)
  ultimately show ?thesis by simp
qed

lemma calls_Push_Some:
  assumes "calls w (Push data # cs) = Some (rs, w')"
  obtains r w1 rs1 where "Write w data = Some (r, w1)" and "calls w1 cs = Some (rs1, w')"
    and "rs = (r, data) # rs1"
  using assms by (auto simp: bind_eq_Some_conv)

lemma calls_Pull_Some:
  assumes "calls w (Pull src # cs) = Some (rs, w')"
  obtains r w1 src' rs1 where "ReadFrom w src = Some (r, w1, src')"
    and "calls w1 cs = Some (rs1, w')" and "rs = (r, consumed src src') # rs1"
  using assms by (auto simp: bind_eq_Some_conv)

lemma calls_disarmed:
  assumes "\<not> 0 < sint (prefixBytes w)" and "calls w cs = Some (rs, w')"
  shows "\<exists>news. received (writer w') = received (writer w) @ news
           \<and> concat news = concat (map snd rs)"
  using assms
proof (induction cs arbitrary: w rs)
  case Nil
  then show ?case by simp
next
  case (Cons c cs)
  show ?case
  proof (cases c)
    case (Push data)
    from Cons.prems(2) [unfolded Push]
    obtain r w1 rs1 where W: "Write w data = Some (r, w1)"
      and C: "calls w1 cs = Some (rs1, w')" and rs: "rs = (r, data) # rs1"
      by (rule calls_Push_Some)
    from W Write_disarmed [OF Cons.prems(1), of data]
    have f: "forward w data = (r, w1)" by simp
    from forward_log(1,3) [OF f] Cons.prems(1)
    have w1: "received (writer w1) = received (writer w) @ [data]"
      "\<not> 0 < sint (prefixBytes w1)" by simp_all
    from Cons.IH [OF w1(2) C] obtain news where
      "received (writer w') = received (writer w1) @ news"
      "concat news = concat (map snd rs1)" by blast
    then show ?thesis
      using w1(1) rs by (intro exI [of _ "data # news"]) simp
  next
    case (Pull src)
    from Cons.prems(2) [unfolded Pull]
    obtain r w1 src' rs1 where R: "ReadFrom w src = Some (r, w1, src')"
      and C: "calls w1 cs = Some (rs1, w')" and rs: "rs = (r, consumed src src') # rs1"
      by (rule calls_Pull_Some)
    obtain k e where r: "r = (k, e)" by (cases r)
    from R ReadFrom_disarmed [OF Cons.prems(1), of src]
    have cr: "copy_rest 0 w src = ((k, e), w1, src')" by (simp add: r)
    from copy_rest_consumed [OF cr]
    obtain new where n: "received (writer w1) = received (writer w) @ new"
      "concat (chunks src) = concat new @ concat (chunks src')" by blast
    from copy_rest_log(1) [OF cr] Cons.prems(1)
    have d: "\<not> 0 < sint (prefixBytes w1)" by simp
    from Cons.IH [OF d C] obtain news where
      "received (writer w') = received (writer w1) @ news"
      "concat news = concat (map snd rs1)" by blast
    then show ?thesis
      using n(1) consumed_eq [OF n(2)] rs by (intro exI [of _ "new @ news"]) simp
  qed
qed

lemma calls_content:
  fixes w :: tlsRecordFragWriter
  defines "off \<equiv> nat (sint (prefixBytes w))"
  assumes C: "calls w (c # cs) = Some (rs, w')" and A: "admissible w c"
  shows "\<exists>news. received (writer w') = received (writer w) @ news
           \<and> content_preserved off (concat (map snd rs)) (concat news)"
proof (cases c)
  case (Push data)
  from C [unfolded Push]
  obtain r w1 rs1 where W: "Write w data = Some (r, w1)"
    and C1: "calls w1 cs = Some (rs1, w')" and rs: "rs = (r, data) # rs1"
    by (rule calls_Push_Some)
  from A have L: "\<not> 0 < sint (prefixBytes w) \<or> int (length data) < 2 ^ 32"
    by (simp add: Push)
  from Write_kept(1) [OF W L] obtain out where
    o: "received (writer w1) = received (writer w) @ [out]"
       "out = data
        \<or> (off < length_field data \<and> length_field data + 5 \<le> length data
            \<and> out = spec_split off data)"
    unfolding off_def by blast
  from calls_disarmed [OF Write_kept(2) [OF W L] C1] obtain news where
    n: "received (writer w') = received (writer w1) @ news"
       "concat news = concat (map snd rs1)" by blast
  from content_preserved_kept [OF o(2), of "concat news"]
  show ?thesis
    using o(1) n rs by (intro exI [of _ "out # news"]) simp
next
  case (Pull src)
  from C [unfolded Pull]
  obtain r w1 src' rs1 where R: "ReadFrom w src = Some (r, w1, src')"
    and C1: "calls w1 cs = Some (rs1, w')" and rs: "rs = (r, consumed src src') # rs1"
    by (rule calls_Pull_Some)
  from A have ok: "\<not> 0 < sint (prefixBytes w)
                   \<or> \<not> ends_inside_record (nat (sint (prefixBytes w))) (concat (chunks src))"
    by (simp add: Pull)
  from ReadFrom_kept(1) [OF R ok] obtain new where
    o: "received (writer w1) = received (writer w) @ new"
       "concat new = consumed src src'
        \<or> (off < length_field (consumed src src')
            \<and> length_field (consumed src src') + 5 \<le> length (consumed src src')
            \<and> concat new = spec_split off (consumed src src'))"
    unfolding off_def by blast
  from calls_disarmed [OF ReadFrom_kept(2) [OF R ok] C1] obtain news where
    n: "received (writer w') = received (writer w1) @ news"
       "concat news = concat (map snd rs1)" by blast
  from content_preserved_kept [OF o(2), of "concat news"]
  show ?thesis
    using o(1) n rs by (intro exI [of _ "new @ news"]) simp
qed

section \<open>A writer constructed with a non-positive offset\<close>

text \<open>
  Claim C8. \<open>NewWriter\<close> checks nothing, so a writer may be constructed with an offset
  that is zero or negative. Both entry points compare \<open>0 < w.prefixBytes\<close> first, and for
  such a writer go straight to the sink: \<open>Write\<close> hands its buffer to the sink as it is
  and returns the sink's count and error, \<open>ReadFrom\<close> is \<open>io.Copy\<close> from the source into
  the sink. The writer that results holds the same offset, so this is so for every call.
\<close>

theorem nonpositive_offset_is_passthrough:
  assumes "sint offsetBytes \<le> 0"
  shows "Write (NewWriter s offsetBytes) data
           = Some (fst (sink_Write s data), NewWriter (snd (sink_Write s data)) offsetBytes)
         \<and> ReadFrom (NewWriter s offsetBytes) src
           = Some (let (r, s', src') = io_Copy s src in (r, NewWriter s' offsetBytes, src'))"
proof -
  have d: "\<not> 0 < sint (prefixBytes (NewWriter s offsetBytes))"
    using assms by (simp add: NewWriter_def)
  have "Write (NewWriter s offsetBytes) data
          = Some (fst (sink_Write s data), NewWriter (snd (sink_Write s data)) offsetBytes)"
    by (subst Write_disarmed [OF d]) (simp add: forward_def NewWriter_def case_prod_beta)
  moreover have "ReadFrom (NewWriter s offsetBytes) src
          = Some (let (r, s', src') = io_Copy s src in (r, NewWriter s' offsetBytes, src'))"
    by (subst ReadFrom_disarmed [OF d]) (simp add: copy_rest_def NewWriter_def case_prod_beta)
  ultimately show ?thesis ..
qed

theorem nonpositive_offset_is_passthrough_witness:
  "sint (- 1 :: int32) \<le> 0
   \<and> Write (NewWriter \<lparr>received = [], behaviour = (\<lambda>h p. (int (length p), None))\<rparr> (- 1))
        [22, 3, 3, 0, 2, 7, 8, 9]
      = Some ((8, None),
              NewWriter \<lparr>received = [[22, 3, 3, 0, 2, 7, 8, 9]],
                         behaviour = (\<lambda>h p. (int (length p), None))\<rparr> (- 1))
   \<and> ReadFrom (NewWriter \<lparr>received = [], behaviour = (\<lambda>h p. (int (length p), None))\<rparr> (- 1))
        \<lparr>chunks = [[22, 3, 3, 0, 2, 7], [8, 9]], final = EOF\<rparr>
      = Some ((8, None),
              NewWriter \<lparr>received = [[22, 3, 3, 0, 2, 7], [8, 9]],
                         behaviour = (\<lambda>h p. (int (length p), None))\<rparr> (- 1),
              \<lparr>chunks = [], final = EOF\<rparr>)"
proof -
  have h: "sint (- 1 :: int32) \<le> 0" by simp
  show ?thesis
    using nonpositive_offset_is_passthrough [OF h,
        of "\<lparr>received = [], behaviour = (\<lambda>h p. (int (length p), None))\<rparr>"
           "[22, 3, 3, 0, 2, 7, 8, 9]"
           "\<lparr>chunks = [[22, 3, 3, 0, 2, 7], [8, 9]], final = EOF\<rparr>"]
    by (simp add: sink_Write_def io_Copy_def copy_buffer_size_def copy_loop.simps)
qed

section \<open>An offset past the end of the record\<close>

text \<open>
  Claim C3. The claim is that an offset at or past the record's length leaves the bytes
  as they are in both modes. \<open>ReadFrom\<close> tests \<open>w.prefixBytes >= recordLength\<close>, but \<open>Write\<close>
  tests \<open>w.prefixBytes == recordLength\<close> only: with offset 4, a handshake record of length
  2 and a buffer of 15 bytes, \<open>Write\<close> reaches \<open>remainder[4:2]\<close> and panics, whatever the
  sink.
\<close>

theorem Write_offset_past_record_length_panics:
  "Write (NewWriter s 4) [22, 3, 3, 0, 2, 1, 2, 3, 4, 5, 6, 7, 8, 9, 10] = None"
proof -
  have "Write (NewWriter s 4) [22, 3, 3, 0, 2, 1, 2, 3, 4, 5, 6, 7, 8, 9, 10]
        = (if False then Some (forward (NewWriter s 4\<lparr>prefixBytes := 0\<rparr>)
                                [22, 3, 3, 0, 2, 1, 2, 3, 4, 5, 6, 7, 8, 9, 10])
           else None)"
    by (subst Write_armed) (simp_all add: NewWriter_def length_field_def)
  then show ?thesis by simp
qed

theorem Write_offset_past_record_length_panics_witness:
  "Write (NewWriter \<lparr>received = [], behaviour = (\<lambda>h p. (int (length p), None))\<rparr> 4)
     [22, 3, 3, 0, 2, 1, 2, 3, 4, 5, 6, 7, 8, 9, 10] = None"
  using Write_offset_past_record_length_panics
    [of "\<lparr>received = [], behaviour = (\<lambda>h p. (int (length p), None))\<rparr>"]
  by simp

section \<open>Content preservation\<close>

lemma ReadFrom_content:
  assumes R: "ReadFrom w src = Some ((k, None), w', src')"
  shows "\<exists>new. received (writer w') = received (writer w) @ new
               \<and> content_preserved (nat (sint (prefixBytes w))) (concat (chunks src)) (concat new)"
proof (cases "0 < sint (prefixBytes w)")
  case False
  from R ReadFrom_disarmed [OF False, of src]
  have "copy_rest 0 w src = ((k, None), w', src')" by simp
  from copy_rest_log(2) [OF this]
  obtain new where "received (writer w') = received (writer w) @ new"
    "concat new = concat (chunks src)" by auto
  then show ?thesis
    by (intro exI [of _ new]) (simp add: content_preserved_same)
next
  case armed: True
  define off where "off = nat (sint (prefixBytes w))"
  obtain hdr err src1 where rf: "io_ReadFull src 5 = (hdr, err, src1)"
    by (cases "io_ReadFull src 5")
  have err: "err = None"
  proof (rule ccontr)
    assume "err \<noteq> None"
    then obtain e where "err = Some e" by auto
    with ReadFrom_header_error [OF armed, of src hdr e src1] rf R show False by simp
  qed
  note rf = rf [unfolded err]
  have lh: "length hdr = 5" using io_ReadFull_content(3) [OF rf] by simp
  have c0: "concat (chunks src) = hdr @ concat (chunks src1)"
    by (rule io_ReadFull_content(1) [OF rf])
  show ?thesis
  proof (cases "hdr ! 0 \<noteq> 22 \<or> length_field hdr \<le> off \<or> 16384 < length_field hdr")
    case True
    from ReadFrom_passthrough [OF armed rf True [unfolded off_def]] R
    have "dontFrag w hdr src1 = ((k, None), w', src')" by simp
    from dontFrag_log(2) [OF this]
    obtain new where "received (writer w') = received (writer w) @ hdr # new"
      "concat new = concat (chunks src1)" by auto
    then show ?thesis
      using c0 by (intro exI [of _ "hdr # new"]) (simp add: content_preserved_same)
  next
    case False
    then have ty: "hdr ! 0 = 22" and n2: "off < length_field hdr"
      and n3: "length_field hdr \<le> 16384" by simp_all
    obtain bytes1 err1 src2 where rf1: "io_ReadFull src1 off = (bytes1, err1, src2)"
      by (cases "io_ReadFull src1 off")
    have err1: "err1 = None"
    proof (rule ccontr)
      assume "err1 \<noteq> None"
      then obtain e where "err1 = Some e" by auto
      with ReadFrom_payload1_error [OF armed rf ty n2 [unfolded off_def] n3, of bytes1 e src2]
        rf1 R show False by (simp add: off_def)
    qed
    note rf1 = rf1 [unfolded err1]
    obtain bytes2 err2 src3 where
      rf2: "io_ReadFull src2 (length_field hdr - off) = (bytes2, err2, src3)"
      by (cases "io_ReadFull src2 (length_field hdr - off)")
    have err2: "err2 = None"
    proof (rule ccontr)
      assume "err2 \<noteq> None"
      then obtain e where "err2 = Some e" by auto
      with ReadFrom_payload2_error [OF armed rf ty n2 [unfolded off_def] n3
          rf1 [unfolded off_def], of bytes2 e src3]
        rf2 R show False by (simp add: off_def)
    qed
    note rf2 = rf2 [unfolded err2]
    have l1: "length bytes1 = off" using io_ReadFull_content(3) [OF rf1] by simp
    have l2: "length bytes2 = length_field hdr - off"
      using io_ReadFull_content(3) [OF rf2] by simp
    have c1: "concat (chunks src1) = bytes1 @ concat (chunks src2)"
      by (rule io_ReadFull_content(1) [OF rf1])
    have c2: "concat (chunks src2) = bytes2 @ concat (chunks src3)"
      by (rule io_ReadFull_content(1) [OF rf2])
    define whole_rec where "whole_rec = hdr @ bytes1 @ bytes2"
    have whole: "concat (chunks src) = whole_rec @ concat (chunks src3)"
      by (simp add: c0 c1 c2 whole_rec_def)
    have lfr: "length_field whole_rec = length_field hdr"
      using lh by (simp add: whole_rec_def length_field_def nth_append)
    have lr: "length_field whole_rec + 5 \<le> length whole_rec"
      unfolding lfr using lh l1 l2 n2 by (simp add: whole_rec_def)
    define buf where "buf = spec_split off whole_rec"
    obtain tmp e s where sw: "sink_Write (writer w) buf = ((tmp, e), s)"
      by (metis surj_pair)
    have s: "received s = received (writer w) @ [buf]"
      using sw by (auto simp: sink_Write_def)
    note split = ReadFrom_split [OF armed rf ty n2 [unfolded off_def] n3 rf1 [unfolded off_def]
        rf2 [unfolded off_def] sw [unfolded buf_def whole_rec_def off_def]]
    have e: "e = None"
      using split R by (auto split: if_splits)
    with split R have
      "copy_rest (if 5 \<le> tmp then tmp - 5 else tmp) (w\<lparr>writer := s, prefixBytes := 0\<rparr>) src3
       = ((k, None), w', src')"
      by simp
    from copy_rest_log(2) [OF this] s
    obtain new where new: "received (writer w') = received (writer w) @ buf # new"
      "concat new = concat (chunks src3)"
      by auto
    have "concat (buf # new) = spec_split off (concat (chunks src))"
      using spec_split_append [OF lr, of off "concat (chunks src3)"] n2
      by (simp add: new(2) buf_def whole lfr)
    moreover have "content_preserved off (concat (chunks src)) (spec_split off (concat (chunks src)))"
      using lr n2 lfr lh by (intro content_preserved_split)
        (simp_all add: whole length_field_def nth_append whole_rec_def)
    ultimately show ?thesis
      using new(1) by (intro exI [of _ "buf # new"]) (simp add: off_def)
  qed
qed

lemma ReadFrom_nil_admissible:
  assumes "ReadFrom w src = Some ((k, None), w', src')"
  shows "admissible w (Pull src)"
proof (rule ccontr)
  assume "\<not> admissible w (Pull src)"
  then have "0 < sint (prefixBytes w)"
    and "ends_inside_record (nat (sint (prefixBytes w))) (concat (chunks src))"
    by simp_all
  from ReadFrom_dropped [OF this] assms show False by auto
qed

text \<open>
  Claim C1, as amended. Take a run of calls on one writer, of \<open>Write\<close> and \<open>ReadFrom\<close> in any
  order, in which every call returns and the first call is admissible: on an armed writer
  it is not a \<open>Write\<close> of \<open>2^32\<close> bytes or more, nor a \<open>ReadFrom\<close> of a source that ends inside
  the header or inside the payload of a handshake record that would be split. Then the
  buffers handed to the sink across all calls, concatenated, are the inputs of the calls,
  concatenated, or the split of that: five bytes longer, the five bytes a second header
  with the type and version of the first, the two length fields adding up to the length
  field of the input, and the bytes after the record unchanged after the second fragment.
  The input of a \<open>Write\<close> is its buffer, and the sink is handed exactly one buffer for it;
  the input of a \<open>ReadFrom\<close> is what it read from its source, and that is all the source
  holds when \<open>ReadFrom\<close> returns no error, which it does only for an admissible source.

  For a source that is not admissible \<open>ReadFrom\<close> returns the count 0 and an error, having
  read all the source holds and handed the sink nothing.
\<close>

theorem content_preserved_when_returned:
  "(calls w (c # cs) = Some (rs, w') \<and> admissible w c \<longrightarrow>
      (\<exists>news. received (writer w') = received (writer w) @ news
         \<and> content_preserved (nat (sint (prefixBytes w))) (concat (map snd rs)) (concat news)))
   \<and> (Write w data = Some (r, w1) \<and> admissible w (Push data) \<longrightarrow>
      (\<exists>out. received (writer w1) = received (writer w) @ [out]
         \<and> content_preserved (nat (sint (prefixBytes w))) data out))
   \<and> (ReadFrom w src = Some ((k, e), w2, src') \<and> admissible w (Pull src) \<longrightarrow>
      (\<exists>new. received (writer w2) = received (writer w) @ new
         \<and> content_preserved (nat (sint (prefixBytes w))) (consumed src src') (concat new)))
   \<and> (ReadFrom w src = Some ((k, None), w2, src') \<longrightarrow>
      admissible w (Pull src) \<and> consumed src src' = concat (chunks src)
      \<and> (\<exists>new. received (writer w2) = received (writer w) @ new
            \<and> content_preserved (nat (sint (prefixBytes w))) (concat (chunks src))
                 (concat new)))
   \<and> (\<not> admissible w (Pull src) \<longrightarrow>
      (\<exists>err w3 src3. ReadFrom w src = Some ((0, Some err), w3, src3)
         \<and> writer w3 = writer w \<and> chunks src3 = []
         \<and> consumed src src3 = concat (chunks src)))"
proof (intro conjI impI)
  assume "calls w (c # cs) = Some (rs, w') \<and> admissible w c"
  then show "\<exists>news. received (writer w') = received (writer w) @ news
         \<and> content_preserved (nat (sint (prefixBytes w))) (concat (map snd rs)) (concat news)"
    using calls_content [of w c cs rs w'] by simp
next
  assume a: "Write w data = Some (r, w1) \<and> admissible w (Push data)"
  then have "calls w (Push data # []) = Some ([(r, data)], w1)"
    by simp
  from calls_content [OF this] a
  obtain news where n: "received (writer w1) = received (writer w) @ news"
    "content_preserved (nat (sint (prefixBytes w))) data (concat news)"
    by auto
  from a have "\<not> 0 < sint (prefixBytes w) \<or> int (length data) < 2 ^ 32"
    by simp
  with Write_kept(1) [of w data r w1] a obtain out where
    "received (writer w1) = received (writer w) @ [out]" by blast
  with n show "\<exists>out. received (writer w1) = received (writer w) @ [out]
         \<and> content_preserved (nat (sint (prefixBytes w))) data out"
    by (intro exI [of _ out]) auto
next
  assume a: "ReadFrom w src = Some ((k, e), w2, src') \<and> admissible w (Pull src)"
  then have "calls w (Pull src # []) = Some ([((k, e), consumed src src')], w2)"
    by simp
  from calls_content [OF this] a
  show "\<exists>new. received (writer w2) = received (writer w) @ new
         \<and> content_preserved (nat (sint (prefixBytes w))) (consumed src src') (concat new)"
    by simp
next
  assume a: "ReadFrom w src = Some ((k, None), w2, src')"
  then show "admissible w (Pull src)"
    by (rule ReadFrom_nil_admissible)
  from ReadFrom_nil_exhausts [OF a] show "consumed src src' = concat (chunks src)"
    by (simp add: consumed_def)
  from a show "\<exists>new. received (writer w2) = received (writer w) @ new
            \<and> content_preserved (nat (sint (prefixBytes w))) (concat (chunks src))
                 (concat new)"
    by (rule ReadFrom_content)
next
  assume "\<not> admissible w (Pull src)"
  then have "0 < sint (prefixBytes w)"
    and "ends_inside_record (nat (sint (prefixBytes w))) (concat (chunks src))"
    by simp_all
  from ReadFrom_dropped [OF this]
  obtain err w3 src3 where "ReadFrom w src = Some ((0, Some err), w3, src3)"
    "writer w3 = writer w" "chunks src3 = []"
    by blast
  then show "\<exists>err w3 src3. ReadFrom w src = Some ((0, Some err), w3, src3)
         \<and> writer w3 = writer w \<and> chunks src3 = []
         \<and> consumed src src3 = concat (chunks src)"
    by (intro exI [of _ err] exI [of _ w3] exI [of _ src3]) (simp add: consumed_def)
qed

text \<open>With offset 4 and a sink that takes all it is handed. A run of three calls: a \<open>Write\<close>
  of a record of length 6 followed by 4 more bytes, which is split, a \<open>ReadFrom\<close> of three
  bytes in two chunks and a \<open>Write\<close> of a whole record, which are passed on. The same
  15 bytes as one \<open>Write\<close>, and as one \<open>ReadFrom\<close> of a source that delivers them in three
  chunks. A source that ends after 3 of 16 payload bytes.\<close>

theorem content_preserved_when_returned_witness:
  "calls (NewWriter \<lparr>received = [], behaviour = (\<lambda>h p. (int (length p), None))\<rparr> 4)
     [Push [22, 3, 3, 0, 6, 1, 2, 3, 4, 5, 6, 7, 8, 9, 10],
      Pull \<lparr>chunks = [[1, 2], [3]], final = EOF\<rparr>,
      Push [22, 3, 3, 0, 1, 9]]
   = Some ([((15, None), [22, 3, 3, 0, 6, 1, 2, 3, 4, 5, 6, 7, 8, 9, 10]),
            ((3, None), [1, 2, 3]),
            ((6, None), [22, 3, 3, 0, 1, 9])],
           NewWriter \<lparr>received = [[22, 3, 3, 0, 4, 1, 2, 3, 4, 22, 3, 3, 0, 2, 5, 6, 7, 8, 9, 10],
                                   [1, 2], [3], [22, 3, 3, 0, 1, 9]],
                      behaviour = (\<lambda>h p. (int (length p), None))\<rparr> 0)
   \<and> content_preserved 4
        ([22, 3, 3, 0, 6, 1, 2, 3, 4, 5, 6, 7, 8, 9, 10] @ [1, 2, 3] @ [22, 3, 3, 0, 1, 9])
        (concat [[22, 3, 3, 0, 4, 1, 2, 3, 4, 22, 3, 3, 0, 2, 5, 6, 7, 8, 9, 10],
                 [1, 2], [3], [22, 3, 3, 0, 1, 9]])
   \<and> Write (NewWriter \<lparr>received = [], behaviour = (\<lambda>h p. (int (length p), None))\<rparr> 4)
       [22, 3, 3, 0, 6, 1, 2, 3, 4, 5, 6, 7, 8, 9, 10]
     = Some ((15, None),
           NewWriter \<lparr>received = [[22, 3, 3, 0, 4, 1, 2, 3, 4, 22, 3, 3, 0, 2, 5, 6, 7, 8, 9, 10]],
                      behaviour = (\<lambda>h p. (int (length p), None))\<rparr> 0)
   \<and> content_preserved 4 [22, 3, 3, 0, 6, 1, 2, 3, 4, 5, 6, 7, 8, 9, 10]
        [22, 3, 3, 0, 4, 1, 2, 3, 4, 22, 3, 3, 0, 2, 5, 6, 7, 8, 9, 10]
   \<and> ReadFrom (NewWriter \<lparr>received = [], behaviour = (\<lambda>h p. (int (length p), None))\<rparr> 4)
        \<lparr>chunks = [[22, 3], [3, 0, 6, 1, 2, 3, 4, 5], [6, 7, 8, 9, 10]], final = EOF\<rparr>
     = Some ((15, None),
           NewWriter \<lparr>received = [[22, 3, 3, 0, 4, 1, 2, 3, 4, 22, 3, 3, 0, 2, 5, 6],
                                   [7, 8, 9, 10]],
                      behaviour = (\<lambda>h p. (int (length p), None))\<rparr> 0,
           \<lparr>chunks = [], final = EOF\<rparr>)
   \<and> content_preserved 4 [22, 3, 3, 0, 6, 1, 2, 3, 4, 5, 6, 7, 8, 9, 10]
        (concat [[22, 3, 3, 0, 4, 1, 2, 3, 4, 22, 3, 3, 0, 2, 5, 6], [7, 8, 9, 10]])
   \<and> ends_inside_record 4 (concat [[22, 3, 3, 0, 16, 1, 2, 3]])
   \<and> ReadFrom (NewWriter \<lparr>received = [], behaviour = (\<lambda>h p. (int (length p), None))\<rparr> 4)
        \<lparr>chunks = [[22, 3, 3, 0, 16, 1, 2, 3]], final = EOF\<rparr>
     = Some ((0, Some ErrUnexpectedEOF),
           NewWriter \<lparr>received = [], behaviour = (\<lambda>h p. (int (length p), None))\<rparr> 0,
           \<lparr>chunks = [], final = EOF\<rparr>)"
proof -
  let ?s = "\<lparr>received = [], behaviour = (\<lambda>h p. (int (length p), None))\<rparr>"
  let ?w = "NewWriter ?s 4"
  let ?d = "[22, 3, 3, 0, 6, 1, 2, 3, 4, 5, 6, 7, 8, 9, 10] :: byte list"
  let ?e = "[22, 3, 3, 0, 1, 9] :: byte list"
  let ?mid = "\<lparr>chunks = [[1, 2], [3 :: byte]], final = EOF\<rparr>"
  let ?src = "\<lparr>chunks = [[22, 3], [3, 0, 6, 1, 2, 3, 4, 5], [6, 7, 8, 9, 10 :: byte]], final = EOF\<rparr>"
  let ?short = "\<lparr>chunks = [[22, 3, 3, 0, 16, 1, 2, 3 :: byte]], final = EOF\<rparr>"
  let ?done = "\<lparr>chunks = [] :: byte list list, final = EOF\<rparr>"
  let ?out = "[22, 3, 3, 0, 4, 1, 2, 3, 4, 22, 3, 3, 0, 2, 5, 6, 7, 8, 9, 10] :: byte list"
  let ?s1 = "\<lparr>received = [?out], behaviour = (\<lambda>h p. (int (length p), None))\<rparr>"
  let ?s2 = "\<lparr>received = [[22, 3, 3, 0, 4, 1, 2, 3, 4, 22, 3, 3, 0, 2, 5, 6], [7, 8, 9, 10 :: byte]],
              behaviour = (\<lambda>h p. (int (length p), None))\<rparr>"
  let ?s3 = "\<lparr>received = [?out, [1, 2], [3], ?e],
              behaviour = (\<lambda>h p. (int (length p), None))\<rparr>"
  let ?rs = "[((15, None), ?d), ((3, None), [1, 2, 3]), ((6, None), ?e)]
             :: ((int \<times> error option) \<times> byte list) list"
  have sp: "spec_split 4 ?d = ?out"
    by (simp add: spec_split_def length_field_def be16_def)
  have a: "Write ?w ?d = Some ((15, None), NewWriter ?s1 0)"
    by (subst Write_armed)
      (simp_all add: NewWriter_def length_field_def sp write_fragmented_def forward_def
        sink_Write_def)
  have b: "ReadFrom ?w ?src = Some ((15, None), NewWriter ?s2 0, ?done)"
    by (subst ReadFrom_armed)
      (simp_all add: NewWriter_def io_ReadFull_def read_full_Nil read_full_Cons length_field_def
        spec_split_def be16_def sink_Write_def copy_rest_def io_Copy_def copy_loop.simps
        copy_buffer_size_def)
  have c: "calls ?w [Push ?d, Pull ?mid, Push ?e] = Some (?rs, NewWriter ?s3 0)"
    by (simp add: a)
      (simp add: NewWriter_def Write_disarmed ReadFrom_disarmed forward_def sink_Write_def
        copy_rest_def io_Copy_def copy_loop.simps copy_buffer_size_def consumed_def)
  have d: "ends_inside_record (nat (sint (prefixBytes ?w))) (concat (chunks ?short))"
    by (simp add: NewWriter_def ends_inside_record_def length_field_def)
  have p: "nat (sint (prefixBytes ?w)) = 4" "0 < sint (prefixBytes ?w)"
    by (simp_all add: NewWriter_def)
  have adm: "admissible ?w (Push ?d)" "admissible ?w (Pull ?src)"
    by (simp_all add: NewWriter_def ends_inside_record_def length_field_def)
  have nadm: "\<not> admissible ?w (Pull ?short)"
    using d p(2) by simp
  note t = content_preserved_when_returned
    [of ?w "Push ?d" "[Pull ?mid, Push ?e]" ?rs "NewWriter ?s3 0" ?d "(15, None)" "NewWriter ?s1 0"
        ?src 15 None "NewWriter ?s2 0" ?done]
  note u = content_preserved_when_returned
    [of ?w "Push ?d" "[Pull ?mid, Push ?e]" ?rs "NewWriter ?s3 0" ?d "(15, None)" "NewWriter ?s1 0"
        ?short]
  from t [THEN conjunct1, rule_format, OF conjI [OF c adm(1)]]
  have r1: "content_preserved 4 (concat (map snd ?rs)) (concat (received ?s3))"
    unfolding p(1) by (auto simp: NewWriter_def)
  from t [THEN conjunct2, THEN conjunct1, rule_format, OF conjI [OF a adm(1)]]
  have r2: "content_preserved 4 ?d ?out"
    unfolding p(1) by (auto simp: NewWriter_def)
  from t [THEN conjunct2, THEN conjunct2, THEN conjunct1, rule_format, OF conjI [OF b adm(2)]]
  have r3: "content_preserved 4 (consumed ?src ?done) (concat (received ?s2))"
    unfolding p(1) by (auto simp: NewWriter_def)
  from u [THEN conjunct2, THEN conjunct2, THEN conjunct2, THEN conjunct2, rule_format, OF nadm]
  obtain err w3 src3 where
    e: "ReadFrom ?w ?short = Some ((0, Some err), w3, src3)" "writer w3 = writer ?w"
      "chunks src3 = []"
    by blast
  have f: "ReadFrom ?w ?short = Some ((0, Some ErrUnexpectedEOF), NewWriter ?s 0, ?done)"
    by (subst ReadFrom_armed)
      (simp_all add: NewWriter_def io_ReadFull_def read_full_Nil read_full_Cons length_field_def)
  from r3 have r3': "content_preserved 4 ?d (concat (received ?s2))"
    by (simp add: consumed_def)
  from t [THEN conjunct2, THEN conjunct2, THEN conjunct2, THEN conjunct1, rule_format, OF b]
  have r4: "consumed ?src ?done = concat (chunks ?src)"
    by blast
  from d have d': "ends_inside_record 4 (concat [[22, 3, 3, 0, 16, 1, 2, 3]])"
    by (simp add: p(1))
  from r1 have r1': "content_preserved 4 (?d @ [1, 2, 3] @ ?e) (concat (received ?s3))"
    by simp
  show ?thesis
    by (intro conjI) (use a b c d' f r1' r2 r3' in simp_all)
qed

text \<open>As the claim is stated it fails in each mode. In pull mode, when the source ends
  inside the record (here after 3 of 16 payload bytes, offset 4), \<open>ReadFrom\<close> returns the
  read error and the sink has been handed nothing, neither the 8 bytes of input nor 13
  bytes. In push mode, for a buffer of \<open>2^32 + 20\<close> bytes that starts with a record of
  length 6, \<open>int32(len(data))\<close> is 20: \<open>Write\<close> hands the sink the split of the first 20 bytes,
  25 bytes in all, and returns the count 20 and no error.\<close>

theorem content_preservation_counterexample:
  "ReadFrom (NewWriter \<lparr>received = [], behaviour = (\<lambda>h p. (int (length p), None))\<rparr> 4)
     \<lparr>chunks = [[22, 3, 3, 0, 16, 1, 2, 3]], final = EOF\<rparr>
   = Some ((0, Some ErrUnexpectedEOF),
           NewWriter \<lparr>received = [], behaviour = (\<lambda>h p. (int (length p), None))\<rparr> 0,
           \<lparr>chunks = [], final = EOF\<rparr>)
   \<and> \<not> content_preserved 4 (concat [[22, 3, 3, 0, 16, 1, 2, 3]]) (concat [])
   \<and> Write (NewWriter \<lparr>received = [], behaviour = (\<lambda>h p. (int (length p), None))\<rparr> 4)
       ([22, 3, 3, 0, 6, 1, 2, 3, 4, 5, 6, 7, 8, 9, 10, 11, 12, 13, 14, 15]
        @ replicate (2 ^ 32) 0)
     = Some ((20, None),
           NewWriter \<lparr>received = [[22, 3, 3, 0, 4, 1, 2, 3, 4, 22, 3, 3, 0, 2, 5, 6,
                                    7, 8, 9, 10, 11, 12, 13, 14, 15]],
                      behaviour = (\<lambda>h p. (int (length p), None))\<rparr> 0)
   \<and> \<not> content_preserved 4
         ([22, 3, 3, 0, 6, 1, 2, 3, 4, 5, 6, 7, 8, 9, 10, 11, 12, 13, 14, 15]
          @ replicate (2 ^ 32) 0)
         [22, 3, 3, 0, 4, 1, 2, 3, 4, 22, 3, 3, 0, 2, 5, 6, 7, 8, 9, 10, 11, 12, 13, 14, 15]"
proof (intro conjI)
  show "ReadFrom (NewWriter \<lparr>received = [], behaviour = (\<lambda>h p. (int (length p), None))\<rparr> 4)
     \<lparr>chunks = [[22, 3, 3, 0, 16, 1, 2, 3]], final = EOF\<rparr>
   = Some ((0, Some ErrUnexpectedEOF),
           NewWriter \<lparr>received = [], behaviour = (\<lambda>h p. (int (length p), None))\<rparr> 0,
           \<lparr>chunks = [], final = EOF\<rparr>)"
    by (subst ReadFrom_armed)
      (simp_all add: NewWriter_def io_ReadFull_def read_full_Nil read_full_Cons length_field_def)
  show "\<not> content_preserved 4 (concat [[22, 3, 3, 0, 16, 1, 2, 3]]) (concat [])"
    by (simp add: content_preserved_def)
  let ?big = "[22, 3, 3, 0, 6, 1, 2, 3, 4, 5, 6, 7, 8, 9, 10, 11, 12, 13, 14, 15 :: byte]
              @ replicate (2 ^ 32) 0"
  have len: "(of_nat (length ?big) :: int32) = 20"
    by simp
  have zeros: "replicate 25 (0 :: byte)
               = [0, 0, 0, 0, 0, 0, 0, 0, 0, 0, 0, 0, 0, 0, 0, 0, 0, 0, 0, 0, 0, 0, 0, 0, 0]"
    by (simp add: numeral_eq_Suc)
  show "Write (NewWriter \<lparr>received = [], behaviour = (\<lambda>h p. (int (length p), None))\<rparr> 4) ?big
     = Some ((20, None),
           NewWriter \<lparr>received = [[22, 3, 3, 0, 4, 1, 2, 3, 4, 22, 3, 3, 0, 2, 5, 6,
                                    7, 8, 9, 10, 11, 12, 13, 14, 15]],
                      behaviour = (\<lambda>h p. (int (length p), None))\<rparr> 0)"
    unfolding Write_def Let_def len
    by (simp add: NewWriter_def slice_from_def Uint16_def index_def typeHandshake_def
        maxRecordLength_def fragment_def make_bytes_def slice_to_def slice_def copy_at_def
        PutUint16_at_def write_fragmented_def forward_def sink_Write_def word_sless_alt
        word_sle_eq zeros)
  show "\<not> content_preserved 4 ?big
         [22, 3, 3, 0, 4, 1, 2, 3, 4, 22, 3, 3, 0, 2, 5, 6, 7, 8, 9, 10, 11, 12, 13, 14, 15]"
    by (simp add: content_preserved_def)
qed

section \<open>One shot\<close>

lemma Writes_disarmed:
  assumes "\<not> 0 < sint (prefixBytes w)"
  shows "Writes w ds = Some (fst (sink_Writes (writer w) ds),
                             w\<lparr>writer := snd (sink_Writes (writer w) ds)\<rparr>)"
  using assms
proof (induction ds arbitrary: w)
  case Nil
  show ?case by simp
next
  case (Cons d ds)
  define w1 where "w1 = snd (forward w d)"
  have w1: "forward w d = (fst (sink_Write (writer w) d), w1)"
    "w1 = w\<lparr>writer := snd (sink_Write (writer w) d)\<rparr>"
    by (simp_all add: w1_def forward_def case_prod_beta)
  have "\<not> 0 < sint (prefixBytes w1)"
    using Cons.prems by (simp add: w1(2))
  from Cons.IH [OF this]
  show ?case
    by (simp add: Write_disarmed [OF Cons.prems] w1(1)) (simp add: w1(2) case_prod_beta)
qed

lemma sink_Writes_log:
  "received (snd (sink_Writes s ds)) = received s @ ds
   \<and> behaviour (snd (sink_Writes s ds)) = behaviour s
   \<and> length (fst (sink_Writes s ds)) = length ds"
proof (induction ds arbitrary: s)
  case Nil
  show ?case by simp
next
  case (Cons d ds)
  from Cons [of "snd (sink_Write s d)"] show ?case
    by (simp add: case_prod_beta sink_Write_def)
qed

lemma Writes_Cons:
  "Writes w (d # ds) =
     (case Write w d of
        None \<Rightarrow> None
      | Some (r, w1) \<Rightarrow>
          Some (r # fst (sink_Writes (writer w1) ds),
                w1\<lparr>writer := snd (sink_Writes (writer w1) ds)\<rparr>))"
proof (cases "Write w d")
  case None
  then show ?thesis by simp
next
  case (Some x)
  obtain r w1 where x: "x = (r, w1)" by (cases x)
  from Write_returns_disarmed(1) [OF Some [unfolded x]]
  have "Writes w1 ds = Some (fst (sink_Writes (writer w1) ds),
                             w1\<lparr>writer := snd (sink_Writes (writer w1) ds)\<rparr>)"
    by (rule Writes_disarmed)
  then show ?thesis
    by (simp add: Some x)
qed

text \<open>
  Claim C2. A run of push-mode calls on one writer is its first \<open>Write\<close> followed by the
  remaining buffers written to the sink directly, one call each, whatever the buffers
  hold: each later call hands its buffer to the sink as it is, the sink's log growing by
  exactly these buffers in their order, and returns the sink's count and error, and the
  writer changes in nothing but the sink. When the first call panics so does the run.
  After the first call has returned the writer is not armed, and for a writer constructed
  with an offset that is not negative, as the specification constructs it, \<open>prefixBytes\<close>
  is 0 then and 0 after every later call.
\<close>

theorem one_shot_push:
  "Writes w (d # ds) =
     (case Write w d of
        None \<Rightarrow> None
      | Some (r, w1) \<Rightarrow>
          Some (r # fst (sink_Writes (writer w1) ds),
                w1\<lparr>writer := snd (sink_Writes (writer w1) ds)\<rparr>))
   \<and> received (snd (sink_Writes s ds)) = received s @ ds
   \<and> length (fst (sink_Writes s ds)) = length ds
   \<and> (Write w d = Some (r, w') \<longrightarrow>
        \<not> 0 < sint (prefixBytes w')
        \<and> (0 \<le> sint (prefixBytes w) \<longrightarrow> prefixBytes w' = 0)
        \<and> Writes w' ds = Some (fst (sink_Writes (writer w') ds),
                                 w'\<lparr>writer := snd (sink_Writes (writer w') ds)\<rparr>)
        \<and> prefixBytes (w'\<lparr>writer := snd (sink_Writes (writer w') ds)\<rparr>) = prefixBytes w')"
proof (intro conjI impI)
  show "Writes w (d # ds) =
     (case Write w d of
        None \<Rightarrow> None
      | Some (r, w1) \<Rightarrow>
          Some (r # fst (sink_Writes (writer w1) ds),
                w1\<lparr>writer := snd (sink_Writes (writer w1) ds)\<rparr>))"
    by (rule Writes_Cons)
  show "received (snd (sink_Writes s ds)) = received s @ ds"
    and "length (fst (sink_Writes s ds)) = length ds"
    using sink_Writes_log [of s ds] by simp_all
next
  assume W: "Write w d = Some (r, w')"
  from Write_returns_disarmed(1) [OF W] show n: "\<not> 0 < sint (prefixBytes w')" .
  from n show "Writes w' ds = Some (fst (sink_Writes (writer w') ds),
                                 w'\<lparr>writer := snd (sink_Writes (writer w') ds)\<rparr>)"
    by (rule Writes_disarmed)
  show "prefixBytes (w'\<lparr>writer := snd (sink_Writes (writer w') ds)\<rparr>) = prefixBytes w'"
    by simp
  assume "0 \<le> sint (prefixBytes w)"
  then show "prefixBytes w' = 0"
    by (rule Write_returns_disarmed(2) [OF W])
qed

text \<open>With offset 4: the first call splits a record of length 6; the second and the third
  call are handed the same record and another record that an armed writer would split, and
  pass them on unchanged.\<close>

theorem one_shot_push_witness:
  "Writes (NewWriter \<lparr>received = [], behaviour = (\<lambda>h p. (int (length p), None))\<rparr> 4)
     [[22, 3, 3, 0, 6, 1, 2, 3, 4, 5, 6], [22, 3, 3, 0, 6, 1, 2, 3, 4, 5, 6],
      [22, 3, 3, 0, 5, 1, 2, 3, 4, 5]]
   = Some ([(11, None), (11, None), (10, None)],
           NewWriter \<lparr>received = [[22, 3, 3, 0, 4, 1, 2, 3, 4, 22, 3, 3, 0, 2, 5, 6],
                                   [22, 3, 3, 0, 6, 1, 2, 3, 4, 5, 6],
                                   [22, 3, 3, 0, 5, 1, 2, 3, 4, 5]],
                      behaviour = (\<lambda>h p. (int (length p), None))\<rparr> 0)
   \<and> Write (NewWriter \<lparr>received = [], behaviour = (\<lambda>h p. (int (length p), None))\<rparr> 4)
       [22, 3, 3, 0, 6, 1, 2, 3, 4, 5, 6]
     = Some ((11, None),
           NewWriter \<lparr>received = [[22, 3, 3, 0, 4, 1, 2, 3, 4, 22, 3, 3, 0, 2, 5, 6]],
                      behaviour = (\<lambda>h p. (int (length p), None))\<rparr> 0)
   \<and> (0 :: int) \<le> sint (prefixBytes
         (NewWriter \<lparr>received = [], behaviour = (\<lambda>h p. (int (length p), None))\<rparr> 4))"
proof -
  let ?s = "\<lparr>received = [], behaviour = (\<lambda>h p. (int (length p), None))\<rparr>"
  let ?d = "[22, 3, 3, 0, 6, 1, 2, 3, 4, 5, 6] :: byte list"
  let ?e = "[22, 3, 3, 0, 5, 1, 2, 3, 4, 5] :: byte list"
  let ?out = "[22, 3, 3, 0, 4, 1, 2, 3, 4, 22, 3, 3, 0, 2, 5, 6] :: byte list"
  let ?s1 = "\<lparr>received = [?out], behaviour = (\<lambda>h p. (int (length p), None))\<rparr>"
  have sp: "spec_split 4 ?d = ?out"
    by (simp add: spec_split_def length_field_def be16_def)
  have a: "Write (NewWriter ?s 4) ?d = Some ((11, None), NewWriter ?s1 0)"
    by (subst Write_armed)
      (simp_all add: NewWriter_def length_field_def sp write_fragmented_def forward_def
        sink_Write_def)
  from one_shot_push [of "NewWriter ?s 4" ?d "[?d, ?e]" ?s "(11, None)" "NewWriter ?s1 0"] a
  show ?thesis
    by (simp add: NewWriter_def sink_Write_def)
qed

section \<open>Errors and the armed state\<close>

text \<open>
  Claim C4. The claim is that an error in either mode leaves the writer disarmed, and in
  particular a short read of the five header bytes. \<open>ReadFrom\<close> sets \<open>w.prefixBytes = 0\<close>
  before it returns the error of either payload read, but returns the error of the header
  read at once: with offset 4 and a source that ends after 3 bytes, the call returns 0 and
  \<open>ErrUnexpectedEOF\<close>, the sink is handed nothing, and the writer still holds offset 4, so
  that the next \<open>Write\<close> of a whole record splits it.
\<close>

theorem header_read_error_leaves_writer_armed:
  "ReadFrom (NewWriter s 4) \<lparr>chunks = [[22, 3, 3]], final = EOF\<rparr>
   = Some ((0, Some ErrUnexpectedEOF), NewWriter s 4, \<lparr>chunks = [], final = EOF\<rparr>)
   \<and> prefixBytes (NewWriter s 4) \<noteq> 0
   \<and> Write (NewWriter s 4) [22, 3, 3, 0, 6, 1, 2, 3, 4, 5, 6]
     = Some (write_fragmented (NewWriter s 4)
               [22, 3, 3, 0, 4, 1, 2, 3, 4, 22, 3, 3, 0, 2, 5, 6])"
proof -
  have p: "0 < sint (prefixBytes (NewWriter s 4))"
    by (simp add: NewWriter_def)
  have "io_ReadFull \<lparr>chunks = [[22, 3, 3]], final = EOF\<rparr> 5
        = ([22, 3, 3], Some ErrUnexpectedEOF, \<lparr>chunks = [], final = EOF\<rparr>)"
    by (simp add: io_ReadFull_def read_full_Nil read_full_Cons)
  from ReadFrom_header_error [OF p this]
  have a: "ReadFrom (NewWriter s 4) \<lparr>chunks = [[22, 3, 3]], final = EOF\<rparr>
           = Some ((0, Some ErrUnexpectedEOF), NewWriter s 4, \<lparr>chunks = [], final = EOF\<rparr>)" .
  have sp: "spec_split 4 [22, 3, 3, 0, 6, 1, 2, 3, 4, 5, 6]
            = [22, 3, 3, 0, 4, 1, 2, 3, 4, 22, 3, 3, 0, 2, 5, 6]"
    by (simp add: spec_split_def length_field_def be16_def)
  have b: "Write (NewWriter s 4) [22, 3, 3, 0, 6, 1, 2, 3, 4, 5, 6]
           = Some (write_fragmented (NewWriter s 4)
                     [22, 3, 3, 0, 4, 1, 2, 3, 4, 22, 3, 3, 0, 2, 5, 6])"
    by (subst Write_armed) (simp_all add: NewWriter_def length_field_def sp)
  show ?thesis
    using a b by (simp add: NewWriter_def)
qed

theorem header_read_error_leaves_writer_armed_witness:
  "ReadFrom (NewWriter \<lparr>received = [], behaviour = (\<lambda>h p. (int (length p), None))\<rparr> 4)
     \<lparr>chunks = [[22, 3, 3]], final = EOF\<rparr>
   = Some ((0, Some ErrUnexpectedEOF),
           NewWriter \<lparr>received = [], behaviour = (\<lambda>h p. (int (length p), None))\<rparr> 4,
           \<lparr>chunks = [], final = EOF\<rparr>)"
  using header_read_error_leaves_writer_armed
    [of "\<lparr>received = [], behaviour = (\<lambda>h p. (int (length p), None))\<rparr>"]
  by simp

section \<open>The count returned after a split\<close>

lemma Write_split_count:
  assumes W: "Write w data = Some ((n, e), w')"
    and log: "received (writer w') = received (writer w) @ [out]" and split: "out \<noteq> data"
  shows "(n, e) = (let (m, e') = behaviour (writer w) (received (writer w)) out
                   in (if 5 \<le> m then m - 5 else m, e'))"
proof (cases "0 < sint (prefixBytes w)")
  case False
  with W Write_disarmed [OF False, of data] have "((n, e), w') = forward w data" by simp
  from forward_log(1) [OF this [symmetric]] log split show ?thesis by simp
next
  case True
  from Write_armed_Some [OF W True]
  show ?thesis
  proof
    assume "((n, e), w') = forward (w\<lparr>prefixBytes := 0\<rparr>) data"
    from forward_log(1) [OF this [symmetric]] log split show ?thesis by simp
  next
    assume "\<exists>buf remainder rl hm.
               slice_from data 5 = Some remainder
               \<and> fragment (prefixBytes w) data remainder (of_nat (length data)) rl hm = Some buf
               \<and> ((n, e), w') = write_fragmented w buf"
    then obtain buf where b: "((n, e), w') = write_fragmented w buf" by blast
    from write_fragmented_log(1) [OF b [symmetric]] log have "buf = out" by simp
    with write_fragmented_log(4) [OF b [symmetric]] show ?thesis by simp
  qed
qed

text \<open>
  Claim C5, as amended. When a push-mode \<open>Write\<close> has split, that is, has handed the sink
  a buffer other than the caller's, the count it returns is the count the sink accepted
  minus 5 if the sink accepted at least 5 bytes, and the sink's count itself otherwise;
  the error is the sink's.
\<close>

theorem split_count_is_adjusted_from_five:
  assumes "Write w data = Some ((n, e), w')"
    and "received (writer w') = received (writer w) @ [out]" and "out \<noteq> data"
  shows "n = (let m = fst (behaviour (writer w) (received (writer w)) out)
              in if 5 \<le> m then m - 5 else m)
         \<and> e = snd (behaviour (writer w) (received (writer w)) out)"
  using Write_split_count [OF assms] by (simp add: case_prod_beta Let_def)

text \<open>A sink that takes the whole 16 bytes of the split: the caller is told 11.\<close>

theorem split_count_is_adjusted_from_five_witness:
  "Write (NewWriter \<lparr>received = [], behaviour = (\<lambda>h p. (int (length p), None))\<rparr> 4)
     [22, 3, 3, 0, 6, 1, 2, 3, 4, 5, 6]
   = Some ((11, None),
           NewWriter \<lparr>received = [[22, 3, 3, 0, 4, 1, 2, 3, 4, 22, 3, 3, 0, 2, 5, 6]],
                      behaviour = (\<lambda>h p. (int (length p), None))\<rparr> 0)
   \<and> (11 :: int) = (let m = 16 in if 5 \<le> m then m - 5 else m)"
proof -
  let ?s = "\<lparr>received = [], behaviour = (\<lambda>h p. (int (length p), None))\<rparr>"
  let ?d = "[22, 3, 3, 0, 6, 1, 2, 3, 4, 5, 6] :: byte list"
  let ?out = "[22, 3, 3, 0, 4, 1, 2, 3, 4, 22, 3, 3, 0, 2, 5, 6] :: byte list"
  let ?s1 = "\<lparr>received = [?out], behaviour = (\<lambda>h p. (int (length p), None))\<rparr>"
  have sp: "spec_split 4 ?d = ?out"
    by (simp add: spec_split_def length_field_def be16_def)
  have a: "Write (NewWriter ?s 4) ?d = Some ((11, None), NewWriter ?s1 0)"
    by (subst Write_armed)
      (simp_all add: NewWriter_def length_field_def sp write_fragmented_def forward_def
        sink_Write_def)
  have b: "received (writer (NewWriter ?s1 0)) = received (writer (NewWriter ?s 4)) @ [?out]"
    by (simp add: NewWriter_def)
  have c: "?out \<noteq> ?d" by simp
  from split_count_is_adjusted_from_five [OF a b c] a
  show ?thesis by (simp add: NewWriter_def)
qed

text \<open>As the claim is stated, with the count \<open>max (accepted - 5) 0\<close>, it fails for a sink
  that takes 3 bytes of the split and reports a short write: \<open>Write\<close> returns 3, not 0.\<close>

theorem split_count_counterexample:
  "Write (NewWriter \<lparr>received = [], behaviour = (\<lambda>h p. (3, Some ErrShortWrite))\<rparr> 4)
     [22, 3, 3, 0, 6, 1, 2, 3, 4, 5, 6]
   = Some ((3, Some ErrShortWrite),
           NewWriter \<lparr>received = [[22, 3, 3, 0, 4, 1, 2, 3, 4, 22, 3, 3, 0, 2, 5, 6]],
                      behaviour = (\<lambda>h p. (3, Some ErrShortWrite))\<rparr> 0)
   \<and> (3 :: int) \<noteq> max (3 - 5) 0"
proof -
  have sp: "spec_split 4 [22, 3, 3, 0, 6, 1, 2, 3, 4, 5, 6]
            = [22, 3, 3, 0, 4, 1, 2, 3, 4, 22, 3, 3, 0, 2, 5, 6]"
    by (simp add: spec_split_def length_field_def be16_def)
  have "Write (NewWriter \<lparr>received = [], behaviour = (\<lambda>h p. (3, Some ErrShortWrite))\<rparr> 4)
     [22, 3, 3, 0, 6, 1, 2, 3, 4, 5, 6]
   = Some ((3, Some ErrShortWrite),
           NewWriter \<lparr>received = [[22, 3, 3, 0, 4, 1, 2, 3, 4, 22, 3, 3, 0, 2, 5, 6]],
                      behaviour = (\<lambda>h p. (3, Some ErrShortWrite))\<rparr> 0)"
    by (subst Write_armed)
      (simp_all add: NewWriter_def length_field_def sp write_fragmented_def forward_def
        sink_Write_def)
  then show ?thesis by simp
qed

section \<open>The end-to-end scenario\<close>

text \<open>
  Claim C6. An armed writer with offset 4 is handed, in one \<open>Write\<close>, the header
  \<open>[22][03 03][00 10]\<close> and 16 payload bytes. The sink is handed \<open>[22][03 03][00 04]\<close>, the
  first 4 payload bytes, \<open>[22][03 03][00 0C]\<close> and the other 12; when it accepts all 26
  bytes, \<open>Write\<close> returns 21, the length of the input.
\<close>

theorem end_to_end_scenario:
  assumes "length payload = 16"
    and "behaviour s (received s)
           ([22, 3, 3, 0, 4] @ take 4 payload @ [22, 3, 3, 0, 12] @ drop 4 payload) = (26, None)"
  shows "Write (NewWriter s 4) ([22, 3, 3, 0, 16] @ payload)
         = Some ((21, None),
                 NewWriter (s\<lparr>received := received s
                     @ [[22, 3, 3, 0, 4] @ take 4 payload @ [22, 3, 3, 0, 12] @ drop 4 payload]\<rparr>) 0)"
proof -
  let ?d = "[22, 3, 3, 0, 16] @ payload"
  have lf: "length_field ?d = 16"
    by (simp add: length_field_def)
  have "spec_split 4 ?d
        = take 3 ?d @ be16 4 @ take 4 (drop 5 ?d)
          @ take 3 ?d @ be16 (16 - 4) @ drop 4 (take 16 (drop 5 ?d)) @ drop 16 (drop 5 ?d)"
    unfolding spec_split_def Let_def lf ..
  then have sp: "spec_split 4 ?d
            = [22, 3, 3, 0, 4] @ take 4 payload @ [22, 3, 3, 0, 12] @ drop 4 payload"
    using assms(1) by (simp add: be16_def)
  have "Write (NewWriter s 4) ?d = Some (write_fragmented (NewWriter s 4) (spec_split 4 ?d))"
    using assms(1) lf by (subst Write_armed) (simp_all add: NewWriter_def)
  then show ?thesis
    unfolding sp using assms(2)
    by (simp add: write_fragmented_def forward_def sink_Write_def NewWriter_def)
qed

theorem end_to_end_scenario_witness:
  "Write (NewWriter \<lparr>received = [], behaviour = (\<lambda>h p. (int (length p), None))\<rparr> 4)
     ([22, 3, 3, 0, 16] @ [1, 2, 3, 4, 5, 6, 7, 8, 9, 10, 11, 12, 13, 14, 15, 16])
   = Some ((21, None),
           NewWriter \<lparr>received = [[22, 3, 3, 0, 4, 1, 2, 3, 4, 22, 3, 3, 0, 12,
                                    5, 6, 7, 8, 9, 10, 11, 12, 13, 14, 15, 16]],
                      behaviour = (\<lambda>h p. (int (length p), None))\<rparr> 0)"
proof -
  let ?p = "[1, 2, 3, 4, 5, 6, 7, 8, 9, 10, 11, 12, 13, 14, 15, 16] :: byte list"
  let ?s = "\<lparr>received = [], behaviour = (\<lambda>h p. (int (length p), None))\<rparr>"
  have a: "length ?p = 16" by simp
  have b: "behaviour ?s (received ?s)
             ([22, 3, 3, 0, 4] @ take 4 ?p @ [22, 3, 3, 0, 12] @ drop 4 ?p) = (26, None)"
    by simp
  from end_to_end_scenario [OF a b] show ?thesis
    by simp
qed

section \<open>Records longer than a fragment may be\<close>

lemma Write_oversized:
  assumes p: "0 < sint (prefixBytes w)" and L5: "5 \<le> length data"
    and big: "16384 < length_field data"
  shows "Write w data = Some (forward (w\<lparr>prefixBytes := 0\<rparr>) data)"
proof -
  define len :: int32 where "len = of_nat (length data)"
  define pb where "pb = prefixBytes w"
  define rl :: int32 where "rl = ucast (of_nat (length_field data) :: uint16)"
  have c1: "0 <s pb" using p by (simp add: word_sless_alt pb_def)
  have srl: "sint rl = int (length_field data)"
    unfolding rl_def by (rule sint_length_field)
  have c5: "(maxRecordLength <s rl) = True"
    using big by (simp add: word_sless_alt srl sint_mrl)
  have g1: "slice_from data 3 = Some (drop 3 data)"
    using L5 by (simp add: slice_from_def)
  have g2: "Uint16 (drop 3 data) = Some (of_nat (length_field data))"
    using L5 by (rule Uint16_length_field)
  have g3: "slice_from data 5 = Some (drop 5 data)"
    using L5 by (simp add: slice_from_def)
  have g4: "index data 0 = Some (data ! 0)"
    using L5 by (auto simp: index_def)
  show ?thesis
  proof (cases "len \<le>s pb + 5")
    case True
    then show ?thesis
      unfolding Write_def Let_def
      apply (fold len_def pb_def)
      apply (simp only: c1 if_True)
      done
  next
    case False
    then show ?thesis
      unfolding Write_def Let_def
      apply (fold len_def pb_def)
      apply (simp only: c1 if_True if_False g1 g2 g3 g4 bind.bind_lunit)
      apply (fold rl_def)
      apply (simp only: c5 simp_thms if_True)
      done
  qed
qed

text \<open>
  Claim C7. A record whose length field exceeds 16384 is never split. In push mode any
  buffer that holds such a header goes to the sink as it is, armed writer or not. In pull
  mode, once the five header bytes are read, the header and then the rest of the source
  go to the sink as they come: what the sink is handed is a prefix of what the source
  held, and all of it when no error is returned. A length field of exactly 16384 does not
  disqualify, in either mode: with an offset below 16384 and the whole record at hand,
  \<open>Write\<close> hands the sink the split of its buffer, and \<open>ReadFrom\<close>, once it has read the header
  and the two parts of the payload, hands the sink the split of the record and goes on to
  copy the rest of the source unless that write fails.
\<close>

theorem oversized_record_is_passed_through:
  "(5 \<le> length data \<and> 16384 < length_field data \<longrightarrow>
      Write w data
      = Some (forward (w\<lparr>prefixBytes := (if 0 < sint (prefixBytes w) then 0 else prefixBytes w)\<rparr>)
                data))
   \<and> (0 < sint (prefixBytes w) \<and> io_ReadFull src 5 = (hdr, None, src1)
        \<and> 16384 < length_field hdr \<longrightarrow>
      ReadFrom w src = Some (dontFrag w hdr src1)
      \<and> (\<exists>new rest. received (writer (fst (snd (dontFrag w hdr src1))))
                        = received (writer w) @ new
                      \<and> concat (chunks src) = concat new @ rest
                      \<and> (snd (fst (dontFrag w hdr src1)) = None \<longrightarrow> rest = [])))
   \<and> (0 < sint (prefixBytes w) \<and> nat (sint (prefixBytes w)) < 16384 \<and> data ! 0 = 22
        \<and> length_field data = 16384 \<and> 16389 \<le> length data \<and> int (length data) + 5 < 2 ^ 31 \<longrightarrow>
      Write w data
      = Some (write_fragmented w (spec_split (nat (sint (prefixBytes w))) data)))
   \<and> (0 < sint (prefixBytes w) \<and> nat (sint (prefixBytes w)) < 16384
        \<and> io_ReadFull src 5 = (hdr, None, src1) \<and> hdr ! 0 = 22 \<and> length_field hdr = 16384
        \<and> io_ReadFull src1 (nat (sint (prefixBytes w))) = (bytes1, None, src2)
        \<and> io_ReadFull src2 (16384 - nat (sint (prefixBytes w))) = (bytes2, None, src3)
        \<and> sink_Write (writer w) (spec_split (nat (sint (prefixBytes w))) (hdr @ bytes1 @ bytes2))
            = ((tmp, err), s) \<longrightarrow>
      ReadFrom w src
      = Some (if err \<noteq> None
              then ((if 5 \<le> tmp then tmp - 5 else tmp, err),
                    w\<lparr>writer := s, prefixBytes := 0\<rparr>, src3)
              else copy_rest (if 5 \<le> tmp then tmp - 5 else tmp)
                     (w\<lparr>writer := s, prefixBytes := 0\<rparr>) src3)
      \<and> received s
          = received (writer w) @ [spec_split (nat (sint (prefixBytes w))) (hdr @ bytes1 @ bytes2)])"
proof (intro conjI impI)
  assume a: "5 \<le> length data \<and> 16384 < length_field data"
  show "Write w data
        = Some (forward (w\<lparr>prefixBytes := (if 0 < sint (prefixBytes w) then 0 else prefixBytes w)\<rparr>)
                  data)"
  proof (cases "0 < sint (prefixBytes w)")
    case True
    with Write_oversized [OF True] a show ?thesis by simp
  next
    case False
    with Write_disarmed [OF False, of data] show ?thesis by simp
  qed
next
  assume a: "0 < sint (prefixBytes w) \<and> io_ReadFull src 5 = (hdr, None, src1)
             \<and> 16384 < length_field hdr"
  then show "ReadFrom w src = Some (dontFrag w hdr src1)"
    by (intro ReadFrom_passthrough) simp_all
  obtain k err w' src' where d: "dontFrag w hdr src1 = ((k, err), w', src')"
    by (metis prod_cases3 surj_pair)
  from a have rf: "io_ReadFull src 5 = (hdr, None, src1)" by simp
  have c0: "concat (chunks src) = hdr @ concat (chunks src1)"
    by (rule io_ReadFull_content(1) [OF rf])
  from dontFrag_log(2) [OF d] obtain new rest where
    n: "received (writer w') = received (writer w) @ hdr # new"
       "concat (chunks src1) = concat new @ rest"
       "err = None \<longrightarrow> concat new = concat (chunks src1)"
    by auto
  have "received (writer w') = received (writer w) @ (hdr # new)
        \<and> concat (chunks src) = concat (hdr # new) @ rest
        \<and> (err = None \<longrightarrow> rest = [])"
    using n c0 by auto
  then show "\<exists>new rest. received (writer (fst (snd (dontFrag w hdr src1))))
                        = received (writer w) @ new
                      \<and> concat (chunks src) = concat new @ rest
                      \<and> (snd (fst (dontFrag w hdr src1)) = None \<longrightarrow> rest = [])"
    unfolding d by (intro exI [of _ "hdr # new"] exI [of _ rest]) simp
next
  assume a: "0 < sint (prefixBytes w) \<and> nat (sint (prefixBytes w)) < 16384 \<and> data ! 0 = 22
        \<and> length_field data = 16384 \<and> 16389 \<le> length data \<and> int (length data) + 5 < 2 ^ 31"
  then have "sint (prefixBytes w) < 16384" by linarith
  then have P: "sint (prefixBytes w) + 5 < 2 ^ 31" by simp
  from a have "\<not> length data - 5 < 16384" "\<not> length data \<le> nat (sint (prefixBytes w)) + 5"
    by linarith+
  with a show "Write w data
      = Some (write_fragmented w (spec_split (nat (sint (prefixBytes w))) data))"
    by (subst Write_armed [OF _ P]) simp_all
next
  assume a: "0 < sint (prefixBytes w) \<and> nat (sint (prefixBytes w)) < 16384
        \<and> io_ReadFull src 5 = (hdr, None, src1) \<and> hdr ! 0 = 22 \<and> length_field hdr = 16384
        \<and> io_ReadFull src1 (nat (sint (prefixBytes w))) = (bytes1, None, src2)
        \<and> io_ReadFull src2 (16384 - nat (sint (prefixBytes w))) = (bytes2, None, src3)
        \<and> sink_Write (writer w) (spec_split (nat (sint (prefixBytes w))) (hdr @ bytes1 @ bytes2))
            = ((tmp, err), s)"
  then have p: "0 < sint (prefixBytes w)"
    and rf: "io_ReadFull src 5 = (hdr, None, src1)"
    and ty: "hdr ! 0 = 22"
    and lf: "length_field hdr = 16384"
    and lt: "nat (sint (prefixBytes w)) < length_field hdr"
    and le: "length_field hdr \<le> 16384"
    and rf1: "io_ReadFull src1 (nat (sint (prefixBytes w))) = (bytes1, None, src2)"
    and rf2: "io_ReadFull src2 (length_field hdr - nat (sint (prefixBytes w)))
              = (bytes2, None, src3)"
    and sw: "sink_Write (writer w)
               (spec_split (nat (sint (prefixBytes w))) (hdr @ bytes1 @ bytes2)) = ((tmp, err), s)"
    by simp_all
  show "ReadFrom w src
      = Some (if err \<noteq> None
              then ((if 5 \<le> tmp then tmp - 5 else tmp, err),
                    w\<lparr>writer := s, prefixBytes := 0\<rparr>, src3)
              else copy_rest (if 5 \<le> tmp then tmp - 5 else tmp)
                     (w\<lparr>writer := s, prefixBytes := 0\<rparr>) src3)"
    by (rule ReadFrom_split [OF p rf ty lt le rf1 rf2 sw])
  show "received s
        = received (writer w) @ [spec_split (nat (sint (prefixBytes w))) (hdr @ bytes1 @ bytes2)]"
    using sw by (auto simp: sink_Write_def)
qed

text \<open>With offset 4 and a sink that takes all it is handed: a whole record with length field
  16385 (bytes \<open>0x40 0x01\<close>) is passed through in both modes, and a whole record with length
  field 16384 (bytes \<open>0x40 0x00\<close>) is split in both modes.\<close>

theorem oversized_record_is_passed_through_witness:
  "Write (NewWriter \<lparr>received = [], behaviour = (\<lambda>h p. (int (length p), None))\<rparr> 4)
     ([22, 3, 3, 64, 1] @ replicate 16385 7)
   = Some ((16390, None),
           NewWriter \<lparr>received = [[22, 3, 3, 64, 1] @ replicate 16385 7],
                      behaviour = (\<lambda>h p. (int (length p), None))\<rparr> 0)
   \<and> ReadFrom (NewWriter \<lparr>received = [], behaviour = (\<lambda>h p. (int (length p), None))\<rparr> 4)
        \<lparr>chunks = [[22, 3, 3, 64, 1] @ replicate 16385 7], final = EOF\<rparr>
     = Some ((16390, None),
             NewWriter \<lparr>received = [[22, 3, 3, 64, 1], replicate 16385 7],
                        behaviour = (\<lambda>h p. (int (length p), None))\<rparr> 0,
             \<lparr>chunks = [], final = EOF\<rparr>)
   \<and> Write (NewWriter \<lparr>received = [], behaviour = (\<lambda>h p. (int (length p), None))\<rparr> 4)
        ([22, 3, 3, 64, 0] @ replicate 16384 7)
     = Some ((16389, None),
             NewWriter \<lparr>received = [[22, 3, 3, 0, 4] @ replicate 4 7
                                     @ [22, 3, 3, 63, 252] @ replicate 16380 7],
                        behaviour = (\<lambda>h p. (int (length p), None))\<rparr> 0)
   \<and> ReadFrom (NewWriter \<lparr>received = [], behaviour = (\<lambda>h p. (int (length p), None))\<rparr> 4)
        \<lparr>chunks = [[22, 3, 3, 64, 0] @ replicate 16384 7], final = EOF\<rparr>
     = Some ((16389, None),
             NewWriter \<lparr>received = [[22, 3, 3, 0, 4] @ replicate 4 7
                                     @ [22, 3, 3, 63, 252] @ replicate 16380 7],
                        behaviour = (\<lambda>h p. (int (length p), None))\<rparr> 0,
             \<lparr>chunks = [], final = EOF\<rparr>)"
proof -
  let ?s = "\<lparr>received = [], behaviour = (\<lambda>h p. (int (length p), None))\<rparr>"
  let ?w = "NewWriter ?s 4"
  let ?over = "[22, 3, 3, 64, 1] @ replicate 16385 (7 :: byte)"
  let ?full = "[22, 3, 3, 64, 0] @ replicate 16384 (7 :: byte)"
  let ?out = "[22, 3, 3, 0, 4] @ replicate 4 7 @ [22, 3, 3, 63, 252] @ replicate 16380 (7 :: byte)"
  let ?osrc = "\<lparr>chunks = [?over], final = EOF\<rparr>"
  let ?osrc1 = "\<lparr>chunks = [replicate 16385 (7 :: byte)], final = EOF\<rparr>"
  let ?src = "\<lparr>chunks = [?full], final = EOF\<rparr>"
  let ?src1 = "\<lparr>chunks = [replicate 16384 (7 :: byte)], final = EOF\<rparr>"
  let ?src2 = "\<lparr>chunks = [replicate 16380 (7 :: byte)], final = EOF\<rparr>"
  let ?src3 = "\<lparr>chunks = [], final = EOF\<rparr>"
  let ?s1 = "\<lparr>received = [?out], behaviour = (\<lambda>h p. (int (length p), None))\<rparr>"
  note t = oversized_record_is_passed_through
    [of ?over ?w ?osrc "[22, 3, 3, 64, 1]" ?osrc1]
  note u = oversized_record_is_passed_through
    [of ?full ?w ?src "[22, 3, 3, 64, 0]" ?src1 "replicate 4 7" ?src2 "replicate 16380 7" ?src3
        16394 None ?s1]
  have p: "0 < sint (prefixBytes ?w)" "nat (sint (prefixBytes ?w)) = 4"
    by (simp_all add: NewWriter_def)
  have sp: "spec_split 4 ?full = ?out"
    by (simp add: spec_split_def length_field_def be16_def)
  have sp': "spec_split 4 ([22, 3, 3, 64, 0] @ replicate 4 7 @ replicate 16380 7) = ?out"
    by (simp add: spec_split_def length_field_def be16_def)
  have h1: "5 \<le> length ?over \<and> 16384 < length_field ?over"
    by (simp add: length_field_def)
  have h2: "io_ReadFull ?osrc 5 = ([22, 3, 3, 64, 1], None, ?osrc1)
            \<and> 16384 < length_field [22, 3, 3, 64, 1]"
    by (simp add: io_ReadFull_def read_full_Cons length_field_def)
  have h3: "?full ! 0 = 22 \<and> length_field ?full = 16384 \<and> 16389 \<le> length ?full
            \<and> int (length ?full) + 5 < 2 ^ 31"
    by (simp add: length_field_def)
  have h4: "io_ReadFull ?src 5 = ([22, 3, 3, 64, 0], None, ?src1)
            \<and> [22, 3, 3, 64, 0] ! 0 = (22 :: byte) \<and> length_field [22, 3, 3, 64, 0] = 16384"
    by (simp add: io_ReadFull_def read_full_Cons length_field_def)
  have h5: "io_ReadFull ?src1 4 = (replicate 4 7, None, ?src2)"
    by (simp add: io_ReadFull_def read_full_Cons)
  have h6: "io_ReadFull ?src2 (16384 - 4) = (replicate 16380 7, None, ?src3)"
    by (simp add: io_ReadFull_def read_full_Cons)
  have h7: "sink_Write (writer ?w) (spec_split 4 ([22, 3, 3, 64, 0] @ replicate 4 7 @ replicate 16380 7))
            = ((16394, None), ?s1)"
    unfolding sp' by (simp add: sink_Write_def NewWriter_def)
  from t h1 have a: "Write ?w ?over = Some (forward (?w\<lparr>prefixBytes := 0\<rparr>) ?over)"
    using p(1) by simp
  from t h2 p(1) have b: "ReadFrom ?w ?osrc = Some (dontFrag ?w [22, 3, 3, 64, 1] ?osrc1)"
    by blast
  from u h3 p have c: "Write ?w ?full = Some (write_fragmented ?w (spec_split 4 ?full))"
    by simp
  from u h4 h5 h6 h7 p have d: "ReadFrom ?w ?src
      = Some (copy_rest 16389 (?w\<lparr>writer := ?s1, prefixBytes := 0\<rparr>) ?src3)"
    by simp
  show ?thesis
    unfolding a b c d sp
    by (simp add: forward_def write_fragmented_def sink_Write_def NewWriter_def dontFrag_def
        copy_rest_def io_Copy_def copy_loop.simps copy_buffer_size_def)
qed

section \<open>A source that ends inside the record\<close>

text \<open>
  Claim C9. An armed \<open>ReadFrom\<close> has read the header of a record that qualifies for the
  split (handshake, offset below the length, length at most 16384). If reading the first
  \<open>offset\<close> payload bytes fails, or reading the remaining ones does, the call returns the
  count 0 and the error of that read; the sink is handed nothing, the writer is disarmed,
  and the source is left empty: the header and the payload bytes read so far are gone and
  are not counted.
\<close>

theorem payload_read_failure_drops_consumed_bytes:
  assumes "0 < sint (prefixBytes w)"
    and "io_ReadFull src 5 = (hdr, None, src1)"
    and "hdr ! 0 = 22" and "nat (sint (prefixBytes w)) < length_field hdr"
    and "length_field hdr \<le> 16384"
    and "io_ReadFull src1 (nat (sint (prefixBytes w))) = (bytes1, err1, src2)"
    and "io_ReadFull src2 (length_field hdr - nat (sint (prefixBytes w))) = (bytes2, err2, src3)"
    and "err1 \<noteq> None \<or> err2 \<noteq> None"
  shows "ReadFrom w src
           = Some ((0, if err1 \<noteq> None then err1 else err2), w\<lparr>prefixBytes := 0\<rparr>,
                   if err1 \<noteq> None then src2 else src3)
         \<and> (if err1 \<noteq> None then err1 else err2) \<noteq> None
         \<and> writer (w\<lparr>prefixBytes := 0\<rparr>) = writer w
         \<and> chunks (if err1 \<noteq> None then src2 else src3) = []
         \<and> length hdr = 5
         \<and> concat (chunks src) = hdr @ concat (chunks src1)"
proof -
  have lh: "length hdr = 5"
    using io_ReadFull_content(3) [OF assms(2)] by simp
  have c0: "concat (chunks src) = hdr @ concat (chunks src1)"
    by (rule io_ReadFull_content(1) [OF assms(2)])
  show ?thesis
  proof (cases "err1 = None")
    case False
    then obtain e where e: "err1 = Some e" by auto
    from ReadFrom_payload1_error [OF assms(1-5) assms(6) [unfolded e]]
      io_ReadFull_content(4) [OF assms(6)] False e lh c0
    show ?thesis by simp
  next
    case True
    with assms(8) obtain e where e: "err2 = Some e" by auto
    from ReadFrom_payload2_error [OF assms(1-5) assms(6) [unfolded True] assms(7) [unfolded e]]
      io_ReadFull_content(4) [OF assms(7)] True e lh c0
    show ?thesis by simp
  qed
qed

text \<open>With offset 4 and a record of length 16: a source that ends after 3 payload bytes
  fails the first read, one that ends after 7 fails the second.\<close>

theorem payload_read_failure_drops_consumed_bytes_witness:
  "ReadFrom (NewWriter \<lparr>received = [], behaviour = (\<lambda>h p. (int (length p), None))\<rparr> 4)
     \<lparr>chunks = [[22, 3, 3, 0, 16, 1, 2, 3]], final = EOF\<rparr>
   = Some ((0, Some ErrUnexpectedEOF),
           NewWriter \<lparr>received = [], behaviour = (\<lambda>h p. (int (length p), None))\<rparr> 0,
           \<lparr>chunks = [], final = EOF\<rparr>)
   \<and> ReadFrom (NewWriter \<lparr>received = [], behaviour = (\<lambda>h p. (int (length p), None))\<rparr> 4)
     \<lparr>chunks = [[22, 3, 3, 0, 16, 1, 2, 3], [4, 5, 6, 7]], final = OtherError 1\<rparr>
   = Some ((0, Some (OtherError 1)),
           NewWriter \<lparr>received = [], behaviour = (\<lambda>h p. (int (length p), None))\<rparr> 0,
           \<lparr>chunks = [], final = OtherError 1\<rparr>)"
proof -
  let ?s = "\<lparr>received = [], behaviour = (\<lambda>h p. (int (length p), None))\<rparr>"
  let ?w = "NewWriter ?s 4"
  let ?h = "[22, 3, 3, 0, 16] :: byte list"
  let ?a = "\<lparr>chunks = [[22, 3, 3, 0, 16, 1, 2, 3 :: byte]], final = EOF\<rparr>"
  let ?a1 = "\<lparr>chunks = [[1, 2, 3 :: byte]], final = EOF\<rparr>"
  let ?e = "\<lparr>chunks = [] :: byte list list, final = EOF\<rparr>"
  let ?b = "\<lparr>chunks = [[22, 3, 3, 0, 16, 1, 2, 3], [4, 5, 6, 7 :: byte]], final = OtherError 1\<rparr>"
  let ?b1 = "\<lparr>chunks = [[1, 2, 3], [4, 5, 6, 7 :: byte]], final = OtherError 1\<rparr>"
  let ?b2 = "\<lparr>chunks = [[4, 5, 6, 7 :: byte]], final = OtherError 1\<rparr>"
  let ?f = "\<lparr>chunks = [] :: byte list list, final = OtherError 1\<rparr>"
  have p: "0 < sint (prefixBytes ?w)" and o: "nat (sint (prefixBytes ?w)) = 4"
    by (simp_all add: NewWriter_def)
  have lf: "length_field ?h = 16" by (simp add: length_field_def)
  have ty: "?h ! 0 = 22" by simp
  have n2: "nat (sint (prefixBytes ?w)) < length_field ?h" by (simp add: o lf)
  have n3: "length_field ?h \<le> 16384" by (simp add: lf)
  have a0: "io_ReadFull ?a 5 = (?h, None, ?a1)"
    by (simp add: io_ReadFull_def read_full_Cons)
  have a1: "io_ReadFull ?a1 (nat (sint (prefixBytes ?w))) = ([1, 2, 3], Some ErrUnexpectedEOF, ?e)"
    by (simp add: o io_ReadFull_def read_full_Cons read_full_Nil)
  have a2: "io_ReadFull ?e (length_field ?h - nat (sint (prefixBytes ?w))) = ([], Some EOF, ?e)"
    by (simp add: o lf io_ReadFull_def read_full_Nil)
  have b0: "io_ReadFull ?b 5 = (?h, None, ?b1)"
    by (simp add: io_ReadFull_def read_full_Cons)
  have b1: "io_ReadFull ?b1 (nat (sint (prefixBytes ?w))) = ([1, 2, 3, 4], None, \<lparr>chunks = [[5, 6, 7]], final = OtherError 1\<rparr>)"
    by (simp add: o io_ReadFull_def read_full_Cons read_full_Nil)
  have b2: "io_ReadFull \<lparr>chunks = [[5, 6, 7 :: byte]], final = OtherError 1\<rparr>
              (length_field ?h - nat (sint (prefixBytes ?w)))
            = ([5, 6, 7], Some (OtherError 1), ?f)"
    by (simp add: o lf io_ReadFull_def read_full_Cons read_full_Nil)
  from payload_read_failure_drops_consumed_bytes [OF p a0 ty n2 n3 a1 a2]
  have A: "ReadFrom ?w ?a = Some ((0, Some ErrUnexpectedEOF), ?w\<lparr>prefixBytes := 0\<rparr>, ?e)"
    by simp
  from payload_read_failure_drops_consumed_bytes [OF p b0 ty n2 n3 b1 b2]
  have B: "ReadFrom ?w ?b = Some ((0, Some (OtherError 1)), ?w\<lparr>prefixBytes := 0\<rparr>, ?f)"
    by simp
  show ?thesis
    unfolding A B by (simp add: NewWriter_def)
qed

section \<open>The prefix of a Shadowsocks URL\<close>

lemma rune_mask_iff:
  fixes r :: rune
  shows "(r AND 0xFF) = r \<longleftrightarrow> 0 \<le> sint r \<and> sint r \<le> 255"
proof -
  have m: "(0xFF :: rune) = mask 8"
    by (simp add: mask_eq_exp_minus_1)
  have A: "(r AND 0xFF) = r \<longleftrightarrow> uint r < 256"
    unfolding m using mask_eq_iff [of r 8] by simp
  show ?thesis
  proof
    assume "(r AND 0xFF) = r"
    with A have u: "uint r < 256" by simp
    have "sint r = signed_take_bit 31 (uint r)"
      by (simp add: sint_uint)
    also have "\<dots> = uint r"
    proof (rule signed_take_bit_int_eq_self)
      have "(0 :: int) \<le> uint r" by simp
      then show "- (2 ^ 31) \<le> uint r" by (rule order_trans [rotated]) simp
      show "uint r < 2 ^ 31" using u by simp
    qed
    finally have "sint r = uint r" .
    moreover have "(0 :: int) \<le> uint r" by simp
    ultimately show "0 \<le> sint r \<and> sint r \<le> 255"
      using u by linarith
  next
    assume s: "0 \<le> sint r \<and> sint r \<le> 255"
    have "uint r = take_bit 32 (sint r)"
      using uint_sint [of r] by simp
    also have "\<dots> = sint r"
      using s by (intro take_bit_int_eq_self) simp_all
    finally show "(r AND 0xFF) = r"
      using s A by simp
  qed
qed

lemma rune_byte_value:
  fixes r :: rune
  assumes "0 \<le> sint r \<and> sint r \<le> 255"
  shows "int (unat (ucast r :: byte)) = sint r"
proof -
  have "uint r = take_bit 32 (sint r)"
    using uint_sint [of r] by simp
  also have "\<dots> = sint r"
    using assms by (intro take_bit_int_eq_self) simp_all
  finally have u: "uint r = sint r" .
  have "uint (ucast r :: byte) = take_bit 8 (uint r)"
    by (simp add: unsigned_ucast_eq)
  also have "\<dots> = uint r"
    using assms u by (intro take_bit_int_eq_self) simp_all
  finally have "uint (ucast r :: byte) = uint r" .
  then have "uint (ucast r :: byte) = sint r"
    by (simp only: u)
  then show ?thesis
    by (metis uint_nat)
qed

lemma fill_rawBytes_ok:
  assumes "\<forall>r\<in>set rs. (r AND 0xFF) = r" and "i + length rs \<le> length buf"
  shows "fill_rawBytes rs i buf
         = Some (Inr (take i buf @ map ucast rs @ drop (i + length rs) buf))"
  using assms
proof (induction rs arbitrary: i buf)
  case Nil
  then show ?case by simp
next
  case (Cons r rs)
  from Cons.prems have i: "i < length buf" and r: "(r AND 0xFF) = r" by simp_all
  have "fill_rawBytes rs (Suc i) (buf[i := ucast r])
        = Some (Inr (take (Suc i) (buf[i := ucast r]) @ map ucast rs
                     @ drop (Suc i + length rs) (buf[i := ucast r])))"
    using Cons.prems by (intro Cons.IH) simp_all
  moreover have "take (Suc i) (buf[i := ucast r]) = take i buf @ [ucast r]"
    using i by (simp add: take_Suc_conv_app_nth)
  moreover have "drop (Suc i + length rs) (buf[i := ucast r]) = drop (Suc i + length rs) buf"
    by simp
  ultimately show ?case
    using i r by simp
qed

lemma fill_rawBytes_bad:
  assumes "\<not> (\<forall>r\<in>set rs. (r AND 0xFF) = r)" and "i + length rs \<le> length buf"
  shows "fill_rawBytes rs i buf
         = Some (Inl (ParsePrefixFailed (hd (filter (\<lambda>r. (r AND 0xFF) \<noteq> r) rs))))"
  using assms
proof (induction rs arbitrary: i buf)
  case Nil
  then show ?case by simp
next
  case (Cons r rs)
  show ?case
  proof (cases "(r AND 0xFF) = r")
    case False
    then show ?thesis by simp
  next
    case True
    with Cons.prems have "\<not> (\<forall>r\<in>set rs. (r AND 0xFF) = r)" by simp
    moreover from Cons.prems have "Suc i + length rs \<le> length (buf[i := ucast r])" by simp
    ultimately have "fill_rawBytes rs (Suc i) (buf[i := ucast r])
        = Some (Inl (ParsePrefixFailed (hd (filter (\<lambda>r. (r AND 0xFF) \<noteq> r) rs))))"
      by (rule Cons.IH)
    with True Cons.prems show ?thesis by simp
  qed
qed

lemma parseStringPrefix_eq:
  "parseStringPrefix utf8Str =
     (if \<forall>r\<in>set (runes_of utf8Str). (r AND 0xFF) = r
      then Some (Inr (map ucast (runes_of utf8Str)))
      else Some (Inl (ParsePrefixFailed
                        (hd (filter (\<lambda>r. (r AND 0xFF) \<noteq> r) (runes_of utf8Str))))))"
proof (cases "\<forall>r\<in>set (runes_of utf8Str). (r AND 0xFF) = r")
  case True
  from fill_rawBytes_ok [OF True, of 0 "replicate (length (runes_of utf8Str)) 0"] True
  show ?thesis by (simp add: parseStringPrefix_def Let_def)
next
  case False
  from fill_rawBytes_bad [OF False, of 0 "replicate (length (runes_of utf8Str)) 0"] False
  show ?thesis by (simp add: parseStringPrefix_def Let_def)
qed

text \<open>
  Claim C10. \<open>parseShadowsocksURL\<close> reads the \<open>prefix\<close> parameter rune by rune. When it is
  not empty and some rune of it is not in \<open>0..0xFF\<close>, the parse returns an error, whatever
  the rest of the URL. When the host, the cipher information and the key are in order and
  the parameter is not empty, the parse succeeds if and only if every rune is in
  \<open>0..0xFF\<close>; the prefix then has one byte for each rune, byte \<open>i\<close> being the code point
  of rune \<open>i\<close>, and otherwise the error names the first rune that is out of range.
\<close>

theorem prefix_is_parsed_rune_by_rune:
  fixes url :: URL
  defines "p \<equiv> Query_Get url prefix_key"
  defines "latin1 \<equiv> (\<lambda>r :: rune. 0 \<le> sint r \<and> sint r \<le> 255)"
  shows "(p \<noteq> [] \<and> \<not> (\<forall>r\<in>set (runes_of p). latin1 r) \<longrightarrow>
            (\<exists>e. parseShadowsocksURL DecodeString NewEncryptionKey url = Some (Inl e)))
         \<and> (Host url \<noteq> [] \<and> DecodeString (User url) = Some info
              \<and> Cut_colon info = (name, secret, True)
              \<and> NewEncryptionKey name secret = Some key \<and> p \<noteq> [] \<longrightarrow>
            parseShadowsocksURL DecodeString NewEncryptionKey url
            = (if \<forall>r\<in>set (runes_of p). latin1 r
               then Some (Inr \<lparr>serverAddress = Host url, cryptoKey = Some key,
                               prefix = map ucast (runes_of p)\<rparr>)
               else Some (Inl (ParsePrefixFailed
                                 (hd (filter (\<lambda>r. \<not> latin1 r) (runes_of p))))))
            \<and> ((\<forall>r\<in>set (runes_of p). latin1 r) \<longrightarrow>
                 length (map ucast (runes_of p) :: byte list) = length (runes_of p)
                 \<and> map (\<lambda>b. int (unat b)) (map ucast (runes_of p) :: byte list)
                   = map sint (runes_of p)))"
proof -
  have l: "\<And>r. ((r AND 0xFF) = r) = latin1 r"
    unfolding latin1_def by (rule rune_mask_iff)
  have l': "(\<lambda>r :: rune. (r AND 0xFF) \<noteq> r) = (\<lambda>r. \<not> latin1 r)"
    by (simp add: l)
  note ps = parseStringPrefix_eq [of p, unfolded l l']
  have first: "p \<noteq> [] \<and> \<not> (\<forall>r\<in>set (runes_of p). latin1 r) \<longrightarrow>
            (\<exists>e. parseShadowsocksURL DecodeString NewEncryptionKey url = Some (Inl e))"
    by (auto simp: parseShadowsocksURL_def Let_def ps p_def [symmetric]
        split: option.splits prod.splits)
  have second: "Host url \<noteq> [] \<and> DecodeString (User url) = Some info
              \<and> Cut_colon info = (name, secret, True)
              \<and> NewEncryptionKey name secret = Some key \<and> p \<noteq> [] \<longrightarrow>
            parseShadowsocksURL DecodeString NewEncryptionKey url
            = (if \<forall>r\<in>set (runes_of p). latin1 r
               then Some (Inr \<lparr>serverAddress = Host url, cryptoKey = Some key,
                               prefix = map ucast (runes_of p)\<rparr>)
               else Some (Inl (ParsePrefixFailed
                                 (hd (filter (\<lambda>r. \<not> latin1 r) (runes_of p))))))"
    by (simp add: parseShadowsocksURL_def Let_def ps p_def [symmetric])
  have third: "(\<forall>r\<in>set (runes_of p). latin1 r) \<longrightarrow>
                 length (map ucast (runes_of p) :: byte list) = length (runes_of p)
                 \<and> map (\<lambda>b. int (unat b)) (map ucast (runes_of p) :: byte list)
                   = map sint (runes_of p)"
    using rune_byte_value by (auto simp: latin1_def)
  from first second third show ?thesis by blast
qed

text \<open>The host \<open>h\<close>, the cipher information \<open>a:b\<close> taken as it is, any key: the prefix
  \<open>0xC3 0xA9\<close>, which is the one rune \<open>U+00E9\<close>, gives the one byte \<open>0xE9\<close>; the prefix
  \<open>0xC4 0x80\<close>, the rune \<open>U+0100\<close>, is refused.\<close>

theorem prefix_is_parsed_rune_by_rune_witness:
  "parseShadowsocksURL Some (\<lambda>name secret. Some (0 :: nat))
     \<lparr>Host = [0x68], User = [0x61, 0x3A, 0x62],
      Query = (\<lambda>k. if k = prefix_key then [[0xC3, 0xA9]] else [])\<rparr>
   = Some (Inr \<lparr>serverAddress = [0x68], cryptoKey = Some 0, prefix = [0xE9]\<rparr>)
   \<and> parseShadowsocksURL Some (\<lambda>name secret. Some (0 :: nat))
     \<lparr>Host = [0x68], User = [0x61, 0x3A, 0x62],
      Query = (\<lambda>k. if k = prefix_key then [[0xC4, 0x80]] else [])\<rparr>
   = Some (Inl (ParsePrefixFailed 0x100))"
proof -
  let ?N = "\<lambda>(name :: byte list) (secret :: byte list). Some (0 :: nat)"
  let ?u1 = "\<lparr>Host = [0x68], User = [0x61, 0x3A, 0x62],
              Query = (\<lambda>k. if k = prefix_key then [[0xC3, 0xA9]] else [])\<rparr>"
  let ?u2 = "\<lparr>Host = [0x68], User = [0x61, 0x3A, 0x62],
              Query = (\<lambda>k. if k = prefix_key then [[0xC4, 0x80]] else [])\<rparr>"
  have r1: "runes_of [0xC3, 0xA9] = [0xE9]"
    by (simp add: decode_multibyte_def continuation_def)
  have r2: "runes_of [0xC4, 0x80] = [0x100]"
    by (simp add: decode_multibyte_def continuation_def)
  have q1: "Query_Get ?u1 prefix_key = [0xC3, 0xA9]"
    and q2: "Query_Get ?u2 prefix_key = [0xC4, 0x80]"
    by (simp_all add: Query_Get_def)
  have c: "Cut_colon [0x61, 0x3A, 0x62] = ([0x61], [0x62], True)"
    by simp
  note t1 = prefix_is_parsed_rune_by_rune
    [of ?u1 Some ?N "[0x61, 0x3A, 0x62]" "[0x61]" "[0x62]" 0, unfolded q1 r1]
  note t2 = prefix_is_parsed_rune_by_rune
    [of ?u2 Some ?N "[0x61, 0x3A, 0x62]" "[0x61]" "[0x62]" 0, unfolded q2 r2]
  from t1 c have a: "parseShadowsocksURL Some ?N ?u1
      = Some (Inr \<lparr>serverAddress = [0x68], cryptoKey = Some 0, prefix = [0xE9]\<rparr>)"
    by simp
  from t2 c have b: "parseShadowsocksURL Some ?N ?u2 = Some (Inl (ParsePrefixFailed 0x100))"
    by simp
  from a b show ?thesis ..
qed

end
